theory Spec2Isabelle
  imports Main "HOL-Library.Sublist"
begin

section \<open>Strings and cell values\<close>

text \<open>
  A Python \<open>str\<close> is modelled as a \<open>string\<close>: one \<open>char\<close> per code point, for code
  points up to 255 (Latin-1), which covers every literal of the source
  (\<open>CHR 0xE9\<close> is the e-acute of \<open>'pr\'enom'\<close>).

  A cell of a pandas DataFrame with text columns is a string or the missing value
  (\<open>NaN\<close>).
\<close>

datatype cell = Str string | NaN

definition in_range :: "char \<Rightarrow> char \<Rightarrow> char \<Rightarrow> bool" where
  "in_range lo hi c = ((of_char lo :: nat) \<le> of_char c \<and> (of_char c :: nat) \<le> of_char hi)"

section \<open>Email syntax validation (utils.py, validate\_email)\<close>

text \<open>
  The pattern \<open>^[a-zA-Z0-9._%+-]+@[a-zA-Z0-9.-]+\.[a-zA-Z]{2,}$\<close> is a sequence of
  literal characters and of character sets repeated at least \<open>n\<close> times
  (\<open>+\<close> is \<open>{1,}\<close>).
\<close>

datatype item = Lit char | AtLeast nat "char \<Rightarrow> bool"

text \<open>
  \<open>matches ps s\<close>: the items \<open>ps\<close> match the whole of \<open>s\<close>, trying every length of
  each repetition, as the backtracking of \<open>re\<close> does.
\<close>

fun matches :: "item list \<Rightarrow> string \<Rightarrow> bool" where
  "matches [] s = (s = [])"
| "matches (Lit c # ps) [] = False"
| "matches (Lit c # ps) (x # xs) = (x = c \<and> matches ps xs)"
| "matches (AtLeast (Suc n) p # ps) [] = False"
| "matches (AtLeast (Suc n) p # ps) (x # xs) = (p x \<and> matches (AtLeast n p # ps) xs)"
| "matches (AtLeast 0 p # ps) [] = matches ps []"
| "matches (AtLeast 0 p # ps) (x # xs) =
     ((p x \<and> matches (AtLeast 0 p # ps) xs) \<or> matches ps (x # xs))"

text \<open>
  \<open>re.match(pattern, s)\<close> for a pattern that ends in \<open>$\<close>: Python's \<open>$\<close> matches at
  the end of the string and also just before a newline that ends the string.
\<close>

definition re_match :: "item list \<Rightarrow> string \<Rightarrow> bool" where
  "re_match ps s = (matches ps s \<or> (s \<noteq> [] \<and> last s = CHR 0x0A \<and> matches ps (butlast s)))"

definition is_letter :: "char \<Rightarrow> bool" where
  "is_letter c = (in_range CHR ''a'' CHR ''z'' c \<or> in_range CHR ''A'' CHR ''Z'' c)"

definition is_alnum :: "char \<Rightarrow> bool" where
  "is_alnum c = (is_letter c \<or> in_range CHR ''0'' CHR ''9'' c)"

definition local_char :: "char \<Rightarrow> bool" where
  "local_char c = (is_alnum c \<or> c \<in> set ''._%+-'')"

definition domain_char :: "char \<Rightarrow> bool" where
  "domain_char c = (is_alnum c \<or> c \<in> set ''.-'')"

definition email_pattern :: "item list" where
  "email_pattern =
     [AtLeast 1 local_char, Lit CHR ''@'', AtLeast 1 domain_char, Lit CHR ''.'',
      AtLeast 2 is_letter]"

text \<open>
  \<open>validate_email\<close>: \<open>not email\<close> rejects the empty string, \<open>pd.isna(email)\<close> the
  missing value.
\<close>

fun validate_email :: "cell \<Rightarrow> bool" where
  "validate_email NaN = False"
| "validate_email (Str s) = (if s = [] then False else re_match email_pattern s)"

section \<open>String operations of Python used by the source\<close>

text \<open>\<open>str.lower()\<close> on Latin-1: A-Z and the accented capitals 0xC0-0xDE (but 0xD7).\<close>

definition lower_char :: "char \<Rightarrow> char" where
  "lower_char c =
     (if in_range CHR ''A'' CHR ''Z'' c \<or> (in_range (CHR 0xC0) (CHR 0xDE) c \<and> c \<noteq> CHR 0xD7)
      then char_of (of_char c + (32 :: nat)) else c)"

definition lower :: "string \<Rightarrow> string" where
  "lower s = map lower_char s"

text \<open>The characters \<open>str.strip()\<close> removes (\<open>str.isspace\<close> on Latin-1).\<close>

definition is_space :: "char \<Rightarrow> bool" where
  "is_space c = (in_range (CHR 0x09) (CHR 0x0D) c \<or> in_range (CHR 0x1C) (CHR 0x20) c
                 \<or> c = CHR 0x85 \<or> c = CHR 0xA0)"

definition strip :: "string \<Rightarrow> string" where
  "strip s = rev (dropWhile is_space (rev (dropWhile is_space s)))"

text \<open>\<open>sub in s\<close>: \<open>sub\<close> occurs in \<open>s\<close> as a contiguous substring.\<close>

fun str_in :: "string \<Rightarrow> string \<Rightarrow> bool" where
  "str_in sub [] = (sub = [])"
| "str_in sub (c # cs) = (prefix sub (c # cs) \<or> str_in sub cs)"

section \<open>Contact ingestion (utils.py, process\_uploaded\_file, table path)\<close>

text \<open>
  A DataFrame is its column names and its rows; a row holds one cell per column, and a
  cell beyond the end of a short row reads as missing, as \<open>read_csv\<close> pads it.
  The email column is a text column (pandas dtype \<open>object\<close>): its cells are strings or
  missing values.
\<close>

record dataframe =
  columns :: "string list"
  rows :: "cell list list"

definition cell_at :: "nat \<Rightarrow> cell list \<Rightarrow> cell" where
  "cell_at i row = (if i < length row then row ! i else NaN)"

text \<open>
  The \<open>if\<close>/\<open>elif\<close> chain that fills \<open>column_mapping\<close> (lines 130-139): the canonical
  name of a column, or \<open>None\<close> when no branch fires and the column keeps its name.
\<close>

definition column_mapping :: "string \<Rightarrow> string option" where
  "column_mapping col =
     (let col_lower = lower col in
      if str_in ''email'' col_lower \<or> str_in ''mail'' col_lower then Some ''email''
      else if str_in ''nom'' col_lower \<or> str_in ''name'' col_lower then Some ''nom''
      else if str_in (''pr'' @ [CHR 0xE9] @ ''nom'') col_lower \<or> str_in ''prenom'' col_lower
              \<or> str_in ''firstname'' col_lower then Some ''prenom''
      else if str_in ''entreprise'' col_lower \<or> str_in ''company'' col_lower
              \<or> str_in ''societe'' col_lower then Some ''entreprise''
      else None)"

text \<open>
  \<open>df.columns.str.strip()\<close> followed by \<open>df.rename(columns=column_mapping)\<close>: the
  mapping is keyed by the stripped name, so every column is renamed by its own name.
\<close>

definition rename_columns :: "string list \<Rightarrow> string list" where
  "rename_columns cols =
     map (\<lambda>c. let col = strip c in case column_mapping col of Some n \<Rightarrow> n | None \<Rightarrow> col) cols"

text \<open>
  \<open>df.drop_duplicates(subset=['email'], keep='first')\<close>: a row is dropped when an
  earlier row has the same key.
\<close>

fun drop_duplicates :: "('r \<Rightarrow> 'k) \<Rightarrow> 'k list \<Rightarrow> 'r list \<Rightarrow> 'r list" where
  "drop_duplicates key seen [] = []"
| "drop_duplicates key seen (r # rs) =
     (if key r \<in> set seen then drop_duplicates key seen rs
      else r # drop_duplicates key (key r # seen) rs)"

text \<open>
  Lines 160-167: the rows kept and \<open>duplicate_count\<close>, the number the message
  "doublons supprim\'es" reports.
\<close>

definition remove_duplicates :: "('r \<Rightarrow> cell) \<Rightarrow> 'r list \<Rightarrow> 'r list \<times> nat" where
  "remove_duplicates email df =
     (let initial_count = length df;
          df' = drop_duplicates email [] df;
          duplicate_count = initial_count - length df'
      in (df', duplicate_count))"

text \<open>Line 148: \<open>df['email'].str.strip() != ''\<close>; a missing value is not equal to \<open>''\<close>.\<close>

fun not_blank :: "cell \<Rightarrow> bool" where
  "not_blank NaN = True"
| "not_blank (Str s) = (strip s \<noteq> [])"

datatype error = ProcessingError

text \<open>
  Lines 145-167 on the rows, given how a row's email is read: rows with a missing or
  blank email are dropped, then the invalid ones (counted), then the duplicates
  (counted). The result is the rows with \<open>invalid_count\<close> and \<open>duplicate_count\<close>.

  When no row is left after line 148 the steps do not go through. An email column whose
  cells are all missing is a \<open>float64\<close> column without \<open>.str\<close>, so line 148 raises; when
  the rows that are left all have a blank email, line 148 empties a text column, on which
  \<open>apply\<close> returns no booleans, and lines 152-153 raise. Both are re-raised as
  "Error processing file". With no row at all (a header only) nothing raises, and
  \<open>df[valid_emails]\<close> with an empty key that holds no booleans selects no column: the frame
  returned has neither rows nor columns (\<open>None\<close> below) and lines 160-167 are skipped.
\<close>

definition clean_rows :: "('r \<Rightarrow> cell) \<Rightarrow> 'r list \<Rightarrow> error + ('r list \<times> nat \<times> nat) option" where
  "clean_rows email df =
     (let df1 = filter (\<lambda>r. email r \<noteq> NaN) df;
          df2 = filter (\<lambda>r. not_blank (email r)) df1
      in if df = [] then Inr None
         else if df2 = [] then Inl ProcessingError
         else
           (let invalid_count = length (filter (\<lambda>r. \<not> validate_email (email r)) df2);
                df3 = filter (\<lambda>r. validate_email (email r)) df2;
                (df4, duplicate_count) = remove_duplicates email df3
            in Inr (Some (df4, invalid_count, duplicate_count))))"

text \<open>
  The table path of \<open>process_uploaded_file\<close> after the file is read (lines 124-169).
  Without an \<open>email\<close> column the three steps are skipped. With several columns renamed
  to \<open>email\<close>, \<open>df['email']\<close> is a frame with no \<open>.str\<close>: the attribute error is
  re-raised as "Error processing file". The two numbers are \<open>invalid_count\<close> and
  \<open>duplicate_count\<close>, 0 where the step that counts is not reached.
\<close>

definition process_table :: "dataframe \<Rightarrow> error + (dataframe \<times> nat \<times> nat)" where
  "process_table df =
     (let cols = rename_columns (columns df);
          email_columns = filter (\<lambda>i. cols ! i = ''email'') [0 ..< length cols]
      in case email_columns of
           [] \<Rightarrow> Inr (\<lparr>columns = cols, rows = rows df\<rparr>, 0, 0)
         | [i] \<Rightarrow>
             (case clean_rows (cell_at i) (rows df) of
                Inl e \<Rightarrow> Inl e
              | Inr None \<Rightarrow> Inr (\<lparr>columns = [], rows = []\<rparr>, 0, 0)
              | Inr (Some (rs, invalid_count, duplicate_count)) \<Rightarrow>
                  Inr (\<lparr>columns = cols, rows = rs\<rparr>, invalid_count, duplicate_count))
         | _ \<Rightarrow> Inl ProcessingError)"

section \<open>Template engine (prepare\_email\_content of both senders)\<close>

text \<open>
  A contact is the \<open>dict\<close> of one row (\<open>contact.to_dict()\<close>): field names with their
  cells, in column order. Python dicts keep insertion order and assigning to a key that
  is present keeps its place, which \<open>dict_set\<close> does.
\<close>

type_synonym contact = "(string \<times> cell) list"

fun dict_set :: "'k \<Rightarrow> 'v \<Rightarrow> ('k \<times> 'v) list \<Rightarrow> ('k \<times> 'v) list" where
  "dict_set k v [] = [(k, v)]"
| "dict_set k v ((k', v') # d) = (if k' = k then (k, v) # d else (k', v') # dict_set k v d)"

text \<open>\<open>contact.get(key, default)\<close>.\<close>

definition dict_get :: "('k \<times> 'v) list \<Rightarrow> 'k \<Rightarrow> 'v \<Rightarrow> 'v" where
  "dict_get d k dflt = (case map_of d k of Some v \<Rightarrow> v | None \<Rightarrow> dflt)"

text \<open>
  \<open>s.replace(old, new)\<close>: every occurrence of \<open>old\<close>, found from left to right without
  overlap, becomes \<open>new\<close>; an empty \<open>old\<close> matches before every character and at the end.
\<close>

function str_replace :: "string \<Rightarrow> string \<Rightarrow> string \<Rightarrow> string" where
  "str_replace old new [] = (if old = [] then new else [])"
| "str_replace old new (c # cs) =
     (if old = [] then new @ c # str_replace old new cs
      else if prefix old (c # cs) then new @ str_replace old new (drop (length old) (c # cs))
      else c # str_replace old new cs)"
  by pat_completeness auto
termination
  by (relation "measure (\<lambda>(old, new, s). length s)") auto

text \<open>The f-string \<open>f"{{{{{key}}}}}"\<close>: the key between two pairs of braces.\<close>

definition token :: "string \<Rightarrow> string" where
  "token key = ''{{'' @ key @ ''}}''"

text \<open>Lines 86-90: \<open>str(value)\<close> when \<open>pd.notna(value)\<close>, the empty string otherwise.\<close>

fun str_value :: "cell \<Rightarrow> string" where
  "str_value (Str s) = s"
| "str_value NaN = []"

definition contact_replacements :: "contact \<Rightarrow> (string \<times> string) list" where
  "contact_replacements contact =
     foldl (\<lambda>replacements (key, v). dict_set key (str_value v) replacements) [] contact"

text \<open>The two loops \<open>for key, value in replacements.items(): s = s.replace(...)\<close>.\<close>

definition apply_replacements :: "(string \<times> string) list \<Rightarrow> string \<Rightarrow> string" where
  "apply_replacements replacements template =
     foldl (\<lambda>processed (key, v). str_replace (token key) v processed) template replacements"

record email_sender =
  smtp_server :: string
  smtp_port :: nat
  use_tls :: bool
  use_ssl :: bool
  sender_email :: string
  sender_password :: string
  sender_name :: string
  reply_to_email :: string

text \<open>
  The fields of \<open>GmailSender\<close> that sending reads: \<open>service\<close> (\<open>None\<close> until
  authenticated, here whether it is set), \<open>sender_email\<close> (\<open>None\<close> until the profile is
  read) and \<open>sender_name\<close>.
\<close>

record gmail_sender =
  gmail_service :: bool
  gmail_sender_email :: "string option"
  gmail_sender_name :: string

definition smtp_replacements :: "email_sender \<Rightarrow> contact \<Rightarrow> (string \<times> string) list" where
  "smtp_replacements self contact =
     dict_set ''sender_email'' (sender_email self)
       (dict_set ''sender_name'' (sender_name self) (contact_replacements contact))"

text \<open>\<open>self.sender_email or ""\<close>: \<open>None\<close> gives the empty string.\<close>

definition gmail_replacements :: "gmail_sender \<Rightarrow> contact \<Rightarrow> (string \<times> string) list" where
  "gmail_replacements self contact =
     dict_set ''sender_email'' (case gmail_sender_email self of None \<Rightarrow> [] | Some e \<Rightarrow> e)
       (contact_replacements contact)"

definition smtp_prepare_email_content ::
    "email_sender \<Rightarrow> string \<Rightarrow> string \<Rightarrow> contact \<Rightarrow> string \<times> string" where
  "smtp_prepare_email_content self subject_template content_template contact =
     (let replacements = smtp_replacements self contact
      in (apply_replacements replacements subject_template,
          apply_replacements replacements content_template))"

definition gmail_prepare_email_content ::
    "gmail_sender \<Rightarrow> string \<Rightarrow> string \<Rightarrow> contact \<Rightarrow> string \<times> string" where
  "gmail_prepare_email_content self subject_template content_template contact =
     (let replacements = gmail_replacements self contact
      in (apply_replacements replacements subject_template,
          apply_replacements replacements content_template))"

section \<open>Delivery backends (send\_email of both senders)\<close>

text \<open>
  The message handed to the transport: the \<open>From\<close> header as the display name (when one
  is configured) and the address, \<open>To\<close>, \<open>Subject\<close>, \<open>Reply-To\<close> (the Gmail sender sets
  none), the body with its content type, whether it is wrapped in a multipart container,
  and the attachments (file name, content).
\<close>

record message =
  header_from :: "string option \<times> string option"
  header_to :: string
  header_subject :: string
  header_reply_to :: "string option"
  body :: string
  body_is_html :: bool
  multipart :: bool
  attachments :: "(string \<times> string) list"

definition create_email_message ::
    "email_sender \<Rightarrow> string \<Rightarrow> string \<Rightarrow> string \<Rightarrow> bool \<Rightarrow> (string \<times> string) list \<Rightarrow> message" where
  "create_email_message self recipient_email subject content is_html atts =
     \<lparr>header_from = (if sender_name self \<noteq> [] then Some (sender_name self) else None,
                      Some (sender_email self)),
      header_to = recipient_email,
      header_subject = subject,
      header_reply_to = Some (reply_to_email self),
      body = content,
      body_is_html = is_html,
      multipart = True,
      attachments = atts\<rparr>"

definition create_message ::
    "gmail_sender \<Rightarrow> string \<Rightarrow> string \<Rightarrow> string \<Rightarrow> bool \<Rightarrow> (string \<times> string) list \<Rightarrow> message" where
  "create_message self to subject message_text is_html atts =
     \<lparr>header_from = (if gmail_sender_name self \<noteq> [] then Some (gmail_sender_name self) else None,
                      gmail_sender_email self),
      header_to = to,
      header_subject = subject,
      header_reply_to = None,
      body = message_text,
      body_is_html = is_html,
      multipart = (is_html \<or> atts \<noteq> []),
      attachments = atts\<rparr>"

text \<open>
  What opening the connection, logging in and \<open>server.send_message\<close> end with: success,
  or one of the exceptions \<open>send_email\<close> catches.
\<close>

datatype transport_result =
  Delivered | AuthenticationError | RecipientsRefused | ServerDisconnected | OtherError

text \<open>\<open>EmailSender._is_valid_email\<close>: the pattern of \<open>validate_email\<close>, on a string.\<close>

definition is_valid_email :: "string \<Rightarrow> bool" where
  "is_valid_email email = re_match email_pattern email"

text \<open>
  \<open>EmailSender.send_email\<close>. The network is a parameter (\<open>transport\<close>); the state is the
  list of the messages for which a transmission was attempted. A recipient that is not a
  string makes \<open>re.match\<close> raise a type error, which the last \<open>except\<close> turns into
  \<open>False\<close>.
\<close>

definition smtp_send_email ::
    "(message \<Rightarrow> transport_result) \<Rightarrow> email_sender \<Rightarrow> contact \<Rightarrow> string \<Rightarrow> string \<Rightarrow> bool
       \<Rightarrow> (string \<times> string) list \<Rightarrow> message list \<Rightarrow> bool \<times> message list" where
  "smtp_send_email transport self contact subject_template content_template is_html atts sent =
     (case dict_get contact ''email'' (Str []) of
        NaN \<Rightarrow> (False, sent)
      | Str recipient_email \<Rightarrow>
          if recipient_email = [] \<or> \<not> is_valid_email recipient_email then (False, sent)
          else
            (let (subject, content) =
                   smtp_prepare_email_content self subject_template content_template contact;
                 message = create_email_message self recipient_email subject content is_html atts
             in (case transport message of
                   Delivered \<Rightarrow> (True, sent @ [message])
                 | _ \<Rightarrow> (False, sent @ [message]))))"

text \<open>
  \<open>GmailSender.send_email\<close> with \<open>send_message\<close>; \<open>api\<close> tells whether
  \<open>messages().send(...).execute()\<close> returns. A recipient that is a missing value passes the
  test \<open>not recipient_email\<close> (NaN is true), and the encoding of the message raises on the
  \<open>to\<close> header, before anything is sent.
\<close>

definition gmail_send_email ::
    "(message \<Rightarrow> bool) \<Rightarrow> gmail_sender \<Rightarrow> contact \<Rightarrow> string \<Rightarrow> string \<Rightarrow> bool
       \<Rightarrow> (string \<times> string) list \<Rightarrow> message list \<Rightarrow> bool \<times> message list" where
  "gmail_send_email api self contact subject_template content_template is_html atts sent =
     (if \<not> gmail_service self then (False, sent)
      else case dict_get contact ''email'' (Str []) of
        NaN \<Rightarrow> (False, sent)
      | Str recipient_email \<Rightarrow>
          if recipient_email = [] then (False, sent)
          else
            (let (subject, content) =
                   gmail_prepare_email_content self subject_template content_template contact;
                 message = create_message self recipient_email subject content is_html atts
             in (api message, sent @ [message])))"

section \<open>Bulk send loop (app.py, lines 622-697)\<close>

record sending_status =
  active :: bool
  progress :: nat
  total :: nat
  success :: nat
  errors :: "cell list"

record log_entry =
  log_email :: cell
  log_status :: string
  log_timestamp :: string
  log_error :: string

text \<open>
  The session state the loop works on: the status, the log, and the rest of the world
  (what the sender changes, the clock), of a type the loop does not look into.
\<close>

record 'w session =
  status :: sending_status
  send_logs :: "log_entry list"
  world :: 'w

text \<open>What the call of \<open>send_email\<close> inside the \<open>try\<close> block does: return or raise.\<close>

datatype outcome = Returned bool | Raised string

text \<open>
  One iteration after the cancellation check (lines 639-694): \<open>send\<close> is the call of the
  chosen sender, \<open>now\<close> reads \<open>time.strftime('%H:%M:%S')\<close>. The waiting
  (\<open>time.sleep\<close>) and the display change nothing of the state and are left out.
\<close>

definition iteration ::
    "(contact \<Rightarrow> 'w \<Rightarrow> outcome \<times> 'w) \<Rightarrow> ('w \<Rightarrow> string) \<Rightarrow> contact \<Rightarrow> 'w session \<Rightarrow> 'w session" where
  "iteration send now contact s =
     (let current_email = dict_get contact ''email'' (Str []);
          (result, w) = send contact (world s);
          st = status s;
          (st', entry) =
            (case result of
               Returned True \<Rightarrow>
                 (st\<lparr>success := success st + 1\<rparr>,
                  \<lparr>log_email = current_email, log_status = ''Succ'' @ [CHR 0xE8] @ ''s'',
                   log_timestamp = now w, log_error = []\<rparr>)
             | Returned False \<Rightarrow>
                 (st\<lparr>errors := errors st @ [current_email]\<rparr>,
                  \<lparr>log_email = current_email, log_status = [CHR 0xC9] @ ''chec'',
                   log_timestamp = now w, log_error = ''Erreur d'' @ [CHR 0x27] @ ''envoi''\<rparr>)
             | Raised e \<Rightarrow>
                 (st\<lparr>errors := errors st @ [current_email]\<rparr>,
                  \<lparr>log_email = current_email, log_status = ''Erreur'',
                   log_timestamp = now w, log_error = e\<rparr>))
      in \<lparr>status = st'\<lparr>progress := progress st' + 1\<rparr>,
          send_logs = send_logs s @ [entry],
          world = w\<rparr>)"

text \<open>
  The \<open>for\<close> loop. \<open>stop i\<close> says that the stop button has set \<open>active\<close> to \<open>False\<close>
  by the time the check at the top of iteration \<open>i\<close> (counted from 0) runs; the loop reads
  the flag there and nowhere else.
\<close>

fun send_loop ::
    "(contact \<Rightarrow> 'w \<Rightarrow> outcome \<times> 'w) \<Rightarrow> ('w \<Rightarrow> string) \<Rightarrow> (nat \<Rightarrow> bool) \<Rightarrow> nat
       \<Rightarrow> contact list \<Rightarrow> 'w session \<Rightarrow> 'w session" where
  "send_loop send now stop i [] s = s"
| "send_loop send now stop i (contact # rest) s =
     (let s1 = (if stop i then s\<lparr>status := (status s)\<lparr>active := False\<rparr>\<rparr> else s)
      in if \<not> active (status s1) then s1
         else send_loop send now stop (Suc i) rest (iteration send now contact s1))"

text \<open>Lines 623-629: the status a run starts with.\<close>

definition initial_status :: "nat \<Rightarrow> sending_status" where
  "initial_status n = \<lparr>active = True, progress = 0, total = n, success = 0, errors = []\<rparr>"

text \<open>Lines 622-696: the status is initialised, the loop runs, \<open>active\<close> is cleared.\<close>

definition bulk_send ::
    "(contact \<Rightarrow> 'w \<Rightarrow> outcome \<times> 'w) \<Rightarrow> ('w \<Rightarrow> string) \<Rightarrow> (nat \<Rightarrow> bool)
       \<Rightarrow> contact list \<Rightarrow> 'w session \<Rightarrow> 'w session" where
  "bulk_send send now stop contacts_df s =
     (let s0 = s\<lparr>status := initial_status (length contacts_df)\<rparr>;
          s1 = send_loop send now stop 0 contacts_df s0
      in s1\<lparr>status := (status s1)\<lparr>active := False\<rparr>\<rparr>)"

text \<open>
  The senders the loop chooses between (lines 644-659). Before each send through Gmail
  the loop sets the sender's \<open>sender_name\<close> to the name entered in the sidebar
  (line 652); with no Gmail sender configured the result is \<open>False\<close>. Both \<open>send_email\<close>
  catch every exception, so the call returns.
\<close>

datatype send_method = SMTP email_sender | GmailAPI "gmail_sender option" string

definition backend_send ::
    "(message \<Rightarrow> transport_result) \<Rightarrow> (message \<Rightarrow> bool) \<Rightarrow> send_method \<Rightarrow> string \<Rightarrow> string
       \<Rightarrow> bool \<Rightarrow> (string \<times> string) list \<Rightarrow> contact \<Rightarrow> message list \<Rightarrow> outcome \<times> message list" where
  "backend_send transport api method email_subject email_content is_html atts contact sent =
     (case method of
        SMTP email_sender \<Rightarrow>
          (let (ok, sent') = smtp_send_email transport email_sender contact email_subject
                               email_content is_html atts sent
           in (Returned ok, sent'))
      | GmailAPI (Some gmail_sender) name \<Rightarrow>
          (let (ok, sent') = gmail_send_email api (gmail_sender\<lparr>gmail_sender_name := name\<rparr>)
                               contact email_subject email_content is_html atts sent
           in (Returned ok, sent'))
      | GmailAPI None name \<Rightarrow> (Returned False, sent))"

text \<open>
  The calls of the sender the loop makes for a list of contacts when it is not cancelled,
  in order: their outcomes and the world after them.
\<close>

fun run_sends ::
    "(contact \<Rightarrow> 'w \<Rightarrow> outcome \<times> 'w) \<Rightarrow> contact list \<Rightarrow> 'w \<Rightarrow> outcome list \<times> 'w" where
  "run_sends send [] w = ([], w)"
| "run_sends send (contact # rest) w =
     (let (result, w1) = send contact w;
          (results, w2) = run_sends send rest w1
      in (result # results, w2))"

text \<open>
  The consistency of a status: every record processed was counted once, as a success or
  as an error, and no more records were processed than the run has.
\<close>

definition consistent :: "sending_status \<Rightarrow> bool" where
  "consistent st = (success st + length (errors st) = progress st \<and> progress st \<le> total st)"

text \<open>A key without braces, as every identifier \<open>[A-Za-z0-9_]+\<close> is.\<close>

definition brace_free :: "string \<Rightarrow> bool" where
  "brace_free k = (CHR ''{'' \<notin> set k \<and> CHR ''}'' \<notin> set k)"

section \<open>Log export (utils.py, export\_logs\_to\_csv)\<close>

text \<open>
  \<open>export_logs_to_csv\<close> returns the header line alone for an empty log and otherwise
  \<open>pd.DataFrame(logs).to_csv(index=False)\<close>. Every entry appended by the send loop is a
  dict with the keys \<open>email\<close>, \<open>status\<close>, \<open>timestamp\<close>, \<open>error\<close> in this order, so these are
  the columns of the frame. With its default arguments \<open>to_csv\<close> writes the header and then
  one line per row, fields joined by a comma, each line ended by a line feed, a missing
  value as the empty field, and a field enclosed in double quotes (with every double quote
  inside it doubled) exactly when it contains a comma, a double quote, a line feed or a
  carriage return.
\<close>

definition needs_quote :: "string \<Rightarrow> bool" where
  "needs_quote f =
     (\<exists>c \<in> set f. c = CHR '','' \<or> c = CHR 0x22 \<or> c = CHR 0x0A \<or> c = CHR 0x0D)"

definition csv_field :: "string \<Rightarrow> string" where
  "csv_field f =
     (if needs_quote f
      then [CHR 0x22] @ concat (map (\<lambda>c. if c = CHR 0x22 then [c, c] else [c]) f) @ [CHR 0x22]
      else f)"

fun join :: "string \<Rightarrow> string list \<Rightarrow> string" where
  "join sep [] = []"
| "join sep [x] = x"
| "join sep (x # y # ys) = x @ sep @ join sep (y # ys)"

definition csv_row :: "string list \<Rightarrow> string" where
  "csv_row fs = join '','' (map csv_field fs) @ [CHR 0x0A]"

definition to_csv :: "string list \<Rightarrow> string list list \<Rightarrow> string" where
  "to_csv cols rs = csv_row cols @ concat (map csv_row rs)"

definition export_logs_to_csv :: "log_entry list \<Rightarrow> string" where
  "export_logs_to_csv logs =
     (if logs = [] then ''email,status,timestamp,error'' @ [CHR 0x0A]
      else to_csv [''email'', ''status'', ''timestamp'', ''error'']
             (map (\<lambda>e. [str_value (log_email e), log_status e, log_timestamp e, log_error e])
                  logs))"

text \<open>
  Modelled from the spec: the repository has no reader for the exported table, so the
  re-parsing of the round trip is a reader of comma-separated text with the usual quoting
  rules. It is a scanner with four states (at the start of a field, inside an unquoted
  field, inside a quoted field, just after a double quote inside a quoted field); \<open>f\<close> is
  the field read so far and \<open>r\<close> the fields of the current row. \<open>read_log\<close> expects the
  header line and four fields on every other line, and returns the entries with the email
  as a text.
\<close>

datatype scan_state = FieldStart | Unquoted | Quoted | QuoteSeen

fun scan :: "scan_state \<Rightarrow> string \<Rightarrow> string list \<Rightarrow> string \<Rightarrow> string list list" where
  "scan st f r [] = (if st = FieldStart \<and> r = [] then [] else [r @ [f]])"
| "scan FieldStart f r (c # cs) =
     (if c = CHR 0x22 then scan Quoted [] r cs
      else if c = CHR '','' then scan FieldStart [] (r @ [[]]) cs
      else if c = CHR 0x0A then (r @ [[]]) # scan FieldStart [] [] cs
      else scan Unquoted [c] r cs)"
| "scan Unquoted f r (c # cs) =
     (if c = CHR '','' then scan FieldStart [] (r @ [f]) cs
      else if c = CHR 0x0A then (r @ [f]) # scan FieldStart [] [] cs
      else scan Unquoted (f @ [c]) r cs)"
| "scan Quoted f r (c # cs) =
     (if c = CHR 0x22 then scan QuoteSeen f r cs else scan Quoted (f @ [c]) r cs)"
| "scan QuoteSeen f r (c # cs) =
     (if c = CHR 0x22 then scan Quoted (f @ [c]) r cs
      else if c = CHR '','' then scan FieldStart [] (r @ [f]) cs
      else if c = CHR 0x0A then (r @ [f]) # scan FieldStart [] [] cs
      else scan Unquoted (f @ [c]) r cs)"

definition parse_csv :: "string \<Rightarrow> string list list" where
  "parse_csv text = scan FieldStart [] [] text"

fun row_entry :: "string list \<Rightarrow> log_entry option" where
  "row_entry [a, b, c, d] =
     Some \<lparr>log_email = Str a, log_status = b, log_timestamp = c, log_error = d\<rparr>"
| "row_entry _ = None"

definition read_log :: "string \<Rightarrow> log_entry list option" where
  "read_log text =
     (case parse_csv text of
        [] \<Rightarrow> None
      | header # rs \<Rightarrow>
          if header = [''email'', ''status'', ''timestamp'', ''error'']
          then those (map row_entry rs) else None)"

section \<open>Properties of the validator\<close>

lemma matches_Lit:
  "matches (Lit c # ps) s \<longleftrightarrow> (\<exists>v. s = c # v \<and> matches ps v)"
  by (cases s) auto

lemma matches_AtLeast:
  "matches (AtLeast n p # ps) s \<longleftrightarrow>
     (\<exists>u v. s = u @ v \<and> n \<le> length u \<and> (\<forall>c \<in> set u. p c) \<and> matches ps v)"
proof (induction s arbitrary: n)
  case Nil
  show ?case by (cases n) auto
next
  case (Cons x xs)
  show ?case
  proof (cases n)
    case 0
    have "matches (AtLeast 0 p # ps) (x # xs) \<longleftrightarrow>
            (p x \<and> (\<exists>u v. xs = u @ v \<and> (\<forall>c \<in> set u. p c) \<and> matches ps v))
            \<or> matches ps (x # xs)"
      using Cons.IH [of 0] by simp
    also have "\<dots> \<longleftrightarrow> (\<exists>u v. x # xs = u @ v \<and> (\<forall>c \<in> set u. p c) \<and> matches ps v)"
    proof
      assume "(p x \<and> (\<exists>u v. xs = u @ v \<and> (\<forall>c \<in> set u. p c) \<and> matches ps v))
              \<or> matches ps (x # xs)"
      then show "\<exists>u v. x # xs = u @ v \<and> (\<forall>c \<in> set u. p c) \<and> matches ps v"
      proof
        assume "p x \<and> (\<exists>u v. xs = u @ v \<and> (\<forall>c \<in> set u. p c) \<and> matches ps v)"
        then obtain u v where "p x" "xs = u @ v" "\<forall>c \<in> set u. p c" "matches ps v"
          by blast
        then have "x # xs = (x # u) @ v \<and> (\<forall>c \<in> set (x # u). p c) \<and> matches ps v"
          by simp
        then show ?thesis by blast
      next
        assume "matches ps (x # xs)"
        then have "x # xs = [] @ (x # xs) \<and> (\<forall>c \<in> set []. p c) \<and> matches ps (x # xs)"
          by simp
        then show ?thesis by blast
      qed
    next
      assume "\<exists>u v. x # xs = u @ v \<and> (\<forall>c \<in> set u. p c) \<and> matches ps v"
      then obtain u v where uv: "x # xs = u @ v" "\<forall>c \<in> set u. p c" "matches ps v"
        by blast
      show "(p x \<and> (\<exists>u v. xs = u @ v \<and> (\<forall>c \<in> set u. p c) \<and> matches ps v))
            \<or> matches ps (x # xs)"
      proof (cases u)
        case Nil
        with uv show ?thesis by simp
      next
        case (Cons y ys)
        with uv have "p x" "xs = ys @ v" "\<forall>c \<in> set ys. p c" by auto
        with uv(3) show ?thesis by blast
      qed
    qed
    finally show ?thesis using 0 by simp
  next
    case (Suc m)
    have "matches (AtLeast (Suc m) p # ps) (x # xs) \<longleftrightarrow>
            p x \<and> (\<exists>u v. xs = u @ v \<and> m \<le> length u \<and> (\<forall>c \<in> set u. p c) \<and> matches ps v)"
      using Cons.IH [of m] by simp
    also have "\<dots> \<longleftrightarrow>
        (\<exists>u v. x # xs = u @ v \<and> Suc m \<le> length u \<and> (\<forall>c \<in> set u. p c) \<and> matches ps v)"
    proof
      assume "p x \<and> (\<exists>u v. xs = u @ v \<and> m \<le> length u \<and> (\<forall>c \<in> set u. p c) \<and> matches ps v)"
      then obtain u v where
        "p x" "xs = u @ v" "m \<le> length u" "\<forall>c \<in> set u. p c" "matches ps v"
        by blast
      then have "x # xs = (x # u) @ v \<and> Suc m \<le> length (x # u)
                 \<and> (\<forall>c \<in> set (x # u). p c) \<and> matches ps v"
        by simp
      then show "\<exists>u v. x # xs = u @ v \<and> Suc m \<le> length u \<and> (\<forall>c \<in> set u. p c) \<and> matches ps v"
        by blast
    next
      assume "\<exists>u v. x # xs = u @ v \<and> Suc m \<le> length u \<and> (\<forall>c \<in> set u. p c) \<and> matches ps v"
      then obtain u v where
        uv: "x # xs = u @ v" "Suc m \<le> length u" "\<forall>c \<in> set u. p c" "matches ps v"
        by blast
      then obtain ys where "u = x # ys" by (cases u) auto
      with uv have "p x" "xs = ys @ v" "m \<le> length ys" "\<forall>c \<in> set ys. p c" by auto
      with uv(4) show
        "p x \<and> (\<exists>u v. xs = u @ v \<and> m \<le> length u \<and> (\<forall>c \<in> set u. p c) \<and> matches ps v)"
        by blast
    qed
    finally show ?thesis using Suc by simp
  qed
qed

text \<open>The strings the pattern matches in full: \<open>local @ domain . tld\<close>.\<close>

lemma matches_email_pattern:
  "matches email_pattern s \<longleftrightarrow>
     (\<exists>l d t. s = l @ ''@'' @ d @ ''.'' @ t
        \<and> 1 \<le> length l \<and> (\<forall>c \<in> set l. local_char c)
        \<and> 1 \<le> length d \<and> (\<forall>c \<in> set d. domain_char c)
        \<and> 2 \<le> length t \<and> (\<forall>c \<in> set t. is_letter c))"
  (is "?lhs \<longleftrightarrow> ?rhs")
proof
  assume ?lhs
  then obtain l v1 where 1: "s = l @ v1" "1 \<le> length l" "\<forall>c \<in> set l. local_char c"
      "matches [Lit CHR ''@'', AtLeast 1 domain_char, Lit CHR ''.'', AtLeast 2 is_letter] v1"
    unfolding email_pattern_def matches_AtLeast [of 1 local_char] by blast
  from 1(4) obtain v2 where 2: "v1 = CHR ''@'' # v2"
      "matches [AtLeast 1 domain_char, Lit CHR ''.'', AtLeast 2 is_letter] v2"
    unfolding matches_Lit by blast
  from 2(2) obtain d v3 where 3: "v2 = d @ v3" "1 \<le> length d" "\<forall>c \<in> set d. domain_char c"
      "matches [Lit CHR ''.'', AtLeast 2 is_letter] v3"
    unfolding matches_AtLeast [of 1 domain_char] by blast
  from 3(4) obtain v4 where 4: "v3 = CHR ''.'' # v4" "matches [AtLeast 2 is_letter] v4"
    unfolding matches_Lit by blast
  from 4(2) obtain t v5 where 5: "v4 = t @ v5" "2 \<le> length t" "\<forall>c \<in> set t. is_letter c"
      "matches [] v5"
    unfolding matches_AtLeast [of 2 is_letter] by blast
  from 5(4) have "v5 = []" by simp
  with 1 2 3 4 5 have "s = l @ ''@'' @ d @ ''.'' @ t" by simp
  with 1 3 5 show ?rhs by blast
next
  assume ?rhs
  then obtain l d t where *: "s = l @ ''@'' @ d @ ''.'' @ t"
      "1 \<le> length l" "\<forall>c \<in> set l. local_char c"
      "1 \<le> length d" "\<forall>c \<in> set d. domain_char c"
      "2 \<le> length t" "\<forall>c \<in> set t. is_letter c"
    by blast
  have "matches [AtLeast 2 is_letter] t"
    unfolding matches_AtLeast [of 2 is_letter] using *(6,7) by force
  then have "matches [Lit CHR ''.'', AtLeast 2 is_letter] (''.'' @ t)"
    by simp
  then have "matches [AtLeast 1 domain_char, Lit CHR ''.'', AtLeast 2 is_letter] (d @ ''.'' @ t)"
    unfolding matches_AtLeast [of 1 domain_char] using *(4,5) by blast
  then have "matches [Lit CHR ''@'', AtLeast 1 domain_char, Lit CHR ''.'', AtLeast 2 is_letter]
               (''@'' @ d @ ''.'' @ t)"
    by simp
  then show ?lhs
    unfolding email_pattern_def matches_AtLeast [of 1 local_char] using *(1,2,3) by blast
qed

lemma dot_not_letter: "\<not> is_letter CHR ''.''"
  by (simp add: is_letter_def in_range_def)

lemma at_not_letter: "\<not> is_letter CHR ''@''"
  by (simp add: is_letter_def in_range_def)

lemma at_not_local: "\<not> local_char CHR ''@''"
  by (simp add: local_char_def is_alnum_def is_letter_def in_range_def)

lemma at_not_domain: "\<not> domain_char CHR ''@''"
  by (simp add: domain_char_def is_alnum_def is_letter_def in_range_def)

lemma last_split_unique:
  "xs @ x # ys = xs' @ x # ys' \<Longrightarrow> x \<notin> set ys \<Longrightarrow> x \<notin> set ys' \<Longrightarrow> ys = ys'"
proof (induction xs arbitrary: xs')
  case Nil
  then show ?case by (cases xs') auto
next
  case (Cons a as)
  then show ?case by (cases xs') auto
qed

lemma first_split_unique:
  "xs @ x # ys = xs' @ x # ys' \<Longrightarrow> x \<notin> set xs' \<Longrightarrow> x \<notin> set ys' \<Longrightarrow> ys = ys'"
proof (induction xs' arbitrary: xs)
  case Nil
  then show ?case by (cases xs) auto
next
  case (Cons b bs)
  then show ?case by (cases xs) auto
qed

lemma re_match_shape:
  "re_match email_pattern s \<longleftrightarrow> (\<exists>l d t e. s = l @ ''@'' @ d @ ''.'' @ t @ e
        \<and> 1 \<le> length l \<and> (\<forall>c \<in> set l. local_char c)
        \<and> 1 \<le> length d \<and> (\<forall>c \<in> set d. domain_char c)
        \<and> 2 \<le> length t \<and> (\<forall>c \<in> set t. is_letter c) \<and> (e = [] \<or> e = [CHR 0x0A]))"
  (is "?lhs \<longleftrightarrow> ?rhs")
proof
  assume ?lhs
  then consider "matches email_pattern s"
    | "s \<noteq> []" "last s = CHR 0x0A" "matches email_pattern (butlast s)"
    unfolding re_match_def by blast
  then show ?rhs
  proof cases
    case 1
    then obtain l d t where "s = l @ ''@'' @ d @ ''.'' @ t @ []"
        "1 \<le> length l" "\<forall>c \<in> set l. local_char c"
        "1 \<le> length d" "\<forall>c \<in> set d. domain_char c"
        "2 \<le> length t" "\<forall>c \<in> set t. is_letter c"
      unfolding matches_email_pattern by auto
    then show ?thesis by blast
  next
    case 2
    from 2(3) obtain l d t where *: "butlast s = l @ ''@'' @ d @ ''.'' @ t"
        "1 \<le> length l" "\<forall>c \<in> set l. local_char c"
        "1 \<le> length d" "\<forall>c \<in> set d. domain_char c"
        "2 \<le> length t" "\<forall>c \<in> set t. is_letter c"
      unfolding matches_email_pattern by auto
    from 2(1,2) have "s = butlast s @ [CHR 0x0A]"
      by (metis append_butlast_last_id)
    with *(1) have "s = l @ ''@'' @ d @ ''.'' @ t @ [CHR 0x0A]" by simp
    with * show ?thesis by blast
  qed
next
  assume ?rhs
  then obtain l d t e where *: "s = l @ ''@'' @ d @ ''.'' @ t @ e"
        "1 \<le> length l" "\<forall>c \<in> set l. local_char c"
        "1 \<le> length d" "\<forall>c \<in> set d. domain_char c"
        "2 \<le> length t" "\<forall>c \<in> set t. is_letter c" "e = [] \<or> e = [CHR 0x0A]"
    by blast
  have m: "matches email_pattern (l @ ''@'' @ d @ ''.'' @ t)"
    unfolding matches_email_pattern using * by blast
  from *(8) show ?lhs
  proof
    assume "e = []"
    with m * show ?thesis by (simp add: re_match_def)
  next
    assume e: "e = [CHR 0x0A]"
    then have "s = (l @ ''@'' @ d @ ''.'' @ t) @ [CHR 0x0A]" using * by simp
    then have "s \<noteq> []" "last s = CHR 0x0A" "butlast s = l @ ''@'' @ d @ ''.'' @ t"
      by (simp_all add: butlast_append)
    with m show ?thesis by (simp add: re_match_def)
  qed
qed

text \<open>
  Claim C3. Every string \<open>local @ domain . tld\<close> whose local part is one or more
  characters of \<open>[A-Za-z0-9._%+-]\<close>, whose domain is one or more characters of
  \<open>[A-Za-z0-9.-]\<close> and whose last label is two or more letters is accepted by
  \<open>validate_email\<close>. A string with no \<open>@\<close>, a string with no dot after an \<open>@\<close>
  (no top-level domain), and a string whose part after the last dot has length at most
  one are rejected.
\<close>
theorem validate_email_spec:
  "(l \<noteq> [] \<and> (\<forall>c \<in> set l. local_char c) \<and> d \<noteq> [] \<and> (\<forall>c \<in> set d. domain_char c)
      \<and> 2 \<le> length t \<and> (\<forall>c \<in> set t. is_letter c)
      \<longrightarrow> validate_email (Str (l @ ''@'' @ d @ ''.'' @ t)))
   \<and> (CHR ''@'' \<notin> set s \<longrightarrow> \<not> validate_email (Str s))
   \<and> (CHR ''.'' \<notin> set b \<longrightarrow> \<not> validate_email (Str (a @ ''@'' @ b)))
   \<and> (CHR ''.'' \<notin> set b \<and> length b \<le> 1 \<longrightarrow> \<not> validate_email (Str (a @ ''.'' @ b)))"
proof (intro conjI impI)
  assume h: "l \<noteq> [] \<and> (\<forall>c \<in> set l. local_char c) \<and> d \<noteq> [] \<and> (\<forall>c \<in> set d. domain_char c)
      \<and> 2 \<le> length t \<and> (\<forall>c \<in> set t. is_letter c)"
  then have "1 \<le> length l" "1 \<le> length d" by (simp_all add: Suc_le_eq)
  with h have "matches email_pattern (l @ ''@'' @ d @ ''.'' @ t)"
    unfolding matches_email_pattern by blast
  then show "validate_email (Str (l @ ''@'' @ d @ ''.'' @ t))"
    by (simp add: re_match_def)
next
  assume no_at: "CHR ''@'' \<notin> set s"
  show "\<not> validate_email (Str s)"
  proof
    assume "validate_email (Str s)"
    then have "re_match email_pattern s" by (simp split: if_splits)
    then obtain l d t e where "s = l @ ''@'' @ d @ ''.'' @ t @ e"
      unfolding re_match_shape by blast
    then have "CHR ''@'' \<in> set s" by simp
    with no_at show False by contradiction
  qed
next
  assume no_dot: "CHR ''.'' \<notin> set b"
  show "\<not> validate_email (Str (a @ ''@'' @ b))"
  proof
    assume "validate_email (Str (a @ ''@'' @ b))"
    then have "re_match email_pattern (a @ ''@'' @ b)" by (simp split: if_splits)
    then obtain l d t e where *: "a @ ''@'' @ b = l @ ''@'' @ d @ ''.'' @ t @ e"
        "\<forall>c \<in> set l. local_char c" "\<forall>c \<in> set d. domain_char c"
        "\<forall>c \<in> set t. is_letter c" "e = [] \<or> e = [CHR 0x0A]"
      unfolding re_match_shape by blast
    have r: "CHR ''@'' \<notin> set (d @ ''.'' @ t @ e)"
      using *(3,4,5) at_not_domain at_not_letter by auto
    have eq: "a @ CHR ''@'' # b = l @ CHR ''@'' # (d @ ''.'' @ t @ e)"
      using *(1) by simp
    have "CHR ''@'' \<notin> set l" using *(2) at_not_local by blast
    then have "b = d @ ''.'' @ t @ e"
      using r by (rule first_split_unique [OF eq])
    then have "CHR ''.'' \<in> set b" by simp
    with no_dot show False by contradiction
  qed
next
  assume h: "CHR ''.'' \<notin> set b \<and> length b \<le> 1"
  show "\<not> validate_email (Str (a @ ''.'' @ b))"
  proof
    assume "validate_email (Str (a @ ''.'' @ b))"
    then have "re_match email_pattern (a @ ''.'' @ b)" by (simp split: if_splits)
    then obtain l d t e where *: "a @ ''.'' @ b = l @ ''@'' @ d @ ''.'' @ t @ e"
        "2 \<le> length t" "\<forall>c \<in> set t. is_letter c" "e = [] \<or> e = [CHR 0x0A]"
      unfolding re_match_shape by blast
    have r: "CHR ''.'' \<notin> set (t @ e)" using *(3,4) dot_not_letter by auto
    have eq: "a @ CHR ''.'' # b = (l @ ''@'' @ d) @ CHR ''.'' # (t @ e)"
      using *(1) by simp
    from h have "CHR ''.'' \<notin> set b" by simp
    then have "b = t @ e" using r by (rule last_split_unique [OF eq])
    then have "length b = length t + length e" by simp
    with *(2) h show False by simp
  qed
qed

theorem validate_email_spec_witness:
  "validate_email (Str ''jean.dupont@mail.example.fr'')
   \<and> \<not> validate_email (Str ''jean.dupont'')
   \<and> \<not> validate_email (Str ''jean@localhost'')
   \<and> \<not> validate_email (Str ''jean@example.f'')"
  using validate_email_spec [of "''jean.dupont''" "''mail.example''" "''fr''" "''jean.dupont''"
      "''localhost''" "''jean''"]
    validate_email_spec [of "[]" "[]" "[]" "[]" "''f''" "''jean@example''"]
  by (simp add: local_char_def domain_char_def is_alnum_def is_letter_def in_range_def)

section \<open>Properties of the column mapping\<close>

lemma str_in_iff: "str_in sub s \<longleftrightarrow> (\<exists>p q. s = p @ sub @ q)"
proof (induction s)
  case Nil
  then show ?case by auto
next
  case (Cons c cs)
  show ?case
  proof
    assume "str_in sub (c # cs)"
    then consider "prefix sub (c # cs)" | "str_in sub cs" by auto
    then show "\<exists>p q. c # cs = p @ sub @ q"
    proof cases
      case 1
      then obtain q where "c # cs = sub @ q" by (auto simp: prefix_def)
      then have "c # cs = [] @ sub @ q" by simp
      then show ?thesis by blast
    next
      case 2
      then obtain p q where "cs = p @ sub @ q" using Cons.IH by blast
      then have "c # cs = (c # p) @ sub @ q" by simp
      then show ?thesis by blast
    qed
  next
    assume "\<exists>p q. c # cs = p @ sub @ q"
    then obtain p q where pq: "c # cs = p @ sub @ q" by blast
    show "str_in sub (c # cs)"
    proof (cases p)
      case Nil
      with pq have "prefix sub (c # cs)" by (simp add: prefix_def)
      then show ?thesis by simp
    next
      case (Cons a p')
      with pq have "cs = p' @ sub @ q" by simp
      then have "str_in sub cs" using Cons.IH by blast
      then show ?thesis by simp
    qed
  qed
qed

lemma str_in_trans: "str_in a b \<Longrightarrow> str_in b s \<Longrightarrow> str_in a s"
proof -
  assume "str_in a b" "str_in b s"
  then obtain p q p' q' where "b = p @ a @ q" "s = p' @ b @ q'"
    unfolding str_in_iff by blast
  then have "s = (p' @ p) @ a @ (q @ q')" by simp
  then show "str_in a s" unfolding str_in_iff by blast
qed

lemma column_mapping_never_prenom: "column_mapping col \<noteq> Some ''prenom''"
proof -
  have 1: "str_in ''nom'' (''pr'' @ [CHR 0xE9] @ ''nom'')" by simp
  have 2: "str_in ''nom'' ''prenom''" by simp
  have 3: "str_in ''name'' ''firstname''" by simp
  let ?l = "lower col"
  have "str_in (''pr'' @ [CHR 0xE9] @ ''nom'') ?l \<or> str_in ''prenom'' ?l \<or> str_in ''firstname'' ?l
        \<Longrightarrow> str_in ''nom'' ?l \<or> str_in ''name'' ?l"
    using str_in_trans [OF 1] str_in_trans [OF 2] str_in_trans [OF 3] by blast
  then show ?thesis
    unfolding column_mapping_def Let_def by (auto split: if_splits)
qed

text \<open>
  Claim C1 (the code departs from it). A table with the header \<open>Email, Nom, Pr\'enom\<close>
  is claimed to give the keys \<open>email, nom, prenom\<close>. The branch for \<open>nom\<close>/\<open>name\<close> is
  tested before the branch for \<open>pr\'enom\<close>/\<open>prenom\<close>/\<open>firstname\<close>, and each of these
  contains \<open>nom\<close> or \<open>name\<close>: the header \<open>Pr\'enom\<close> is renamed to \<open>nom\<close>, and no
  header at all is ever renamed to \<open>prenom\<close>.
\<close>

theorem prenom_header_renamed_to_nom:
  "rename_columns [''Email'', ''Nom'', ''Pr'' @ [CHR 0xE9] @ ''nom''] = [''email'', ''nom'', ''nom'']
   \<and> column_mapping col \<noteq> Some ''prenom''"
proof
  show "rename_columns [''Email'', ''Nom'', ''Pr'' @ [CHR 0xE9] @ ''nom'']
          = [''email'', ''nom'', ''nom'']"
    by code_simp
  show "column_mapping col \<noteq> Some ''prenom''"
    by (rule column_mapping_never_prenom)
qed

theorem prenom_header_renamed_to_nom_witness:
  "column_mapping ''Firstname'' \<noteq> Some ''prenom''
   \<and> process_table \<lparr>columns = [''Email'', ''Nom'', ''Pr'' @ [CHR 0xE9] @ ''nom''],
                     rows = [[Str ''a@x.com'', Str ''Durand'', Str ''Pierre'']]\<rparr>
       = Inr (\<lparr>columns = [''email'', ''nom'', ''nom''],
               rows = [[Str ''a@x.com'', Str ''Durand'', Str ''Pierre'']]\<rparr>, 0, 0)"
proof
  show "column_mapping ''Firstname'' \<noteq> Some ''prenom''"
    using prenom_header_renamed_to_nom [of "''Firstname''"] by (rule conjunct2)
  show "process_table \<lparr>columns = [''Email'', ''Nom'', ''Pr'' @ [CHR 0xE9] @ ''nom''],
                     rows = [[Str ''a@x.com'', Str ''Durand'', Str ''Pierre'']]\<rparr>
       = Inr (\<lparr>columns = [''email'', ''nom'', ''nom''],
               rows = [[Str ''a@x.com'', Str ''Durand'', Str ''Pierre'']]\<rparr>, 0, 0)"
    by code_simp
qed

section \<open>Properties of the removal of duplicates\<close>

lemma dd_keys: "set (map key (drop_duplicates key seen rs)) = set (map key rs) - set seen"
  by (induction rs arbitrary: seen) auto

lemma dd_distinct: "distinct (map key (drop_duplicates key seen rs))"
  by (induction rs arbitrary: seen) (auto simp: dd_keys [simplified])

lemma dd_subseq: "subseq (drop_duplicates key seen rs) rs"
  by (induction rs arbitrary: seen) auto

lemma dd_length: "length (drop_duplicates key seen rs) \<le> length rs"
  by (induction rs arbitrary: seen) (auto intro: le_SucI)

lemma dd_first:
  "k \<notin> set seen \<Longrightarrow>
     find (\<lambda>r. key r = k) (drop_duplicates key seen rs) = find (\<lambda>r. key r = k) rs"
  by (induction rs arbitrary: seen) auto

lemma dd_seen_cong:
  "set seen = set seen' \<Longrightarrow> drop_duplicates key seen rs = drop_duplicates key seen' rs"
proof (induction rs arbitrary: seen seen')
  case Nil
  show ?case by simp
next
  case (Cons r rs)
  have "set (key r # seen) = set (key r # seen')" using Cons.prems by simp
  then have "drop_duplicates key (key r # seen) rs = drop_duplicates key (key r # seen') rs"
    by (rule Cons.IH)
  moreover have "drop_duplicates key seen rs = drop_duplicates key seen' rs"
    using Cons.prems by (rule Cons.IH)
  ultimately show ?case using Cons.prems by simp
qed

lemma dd_append:
  "drop_duplicates key seen (xs @ ys) =
     drop_duplicates key seen xs @ drop_duplicates key (map key xs @ seen) ys"
proof (induction xs arbitrary: seen)
  case Nil
  show ?case by simp
next
  case (Cons x xs)
  show ?case
  proof (cases "key x \<in> set seen")
    case True
    then have "set (map key (x # xs) @ seen) = set (map key xs @ seen)" by auto
    then have "drop_duplicates key (map key (x # xs) @ seen) ys
               = drop_duplicates key (map key xs @ seen) ys"
      by (rule dd_seen_cong)
    with True Cons.IH [of seen] show ?thesis by simp
  next
    case False
    have "set (map key (x # xs) @ seen) = set (map key xs @ key x # seen)" by auto
    then have "drop_duplicates key (map key (x # xs) @ seen) ys
               = drop_duplicates key (map key xs @ key x # seen) ys"
      by (rule dd_seen_cong)
    with False Cons.IH [of "key x # seen"] show ?thesis by simp
  qed
qed

lemma dd_id:
  "distinct (map key rs) \<Longrightarrow> set (map key rs) \<inter> set seen = {} \<Longrightarrow>
     drop_duplicates key seen rs = rs"
  by (induction rs arbitrary: seen) auto

lemma dd_count_card:
  "length (drop_duplicates key [] rs) = card (key ` set rs)"
proof -
  have "length (drop_duplicates key [] rs) = length (map key (drop_duplicates key [] rs))"
    by simp
  also have "\<dots> = card (set (map key (drop_duplicates key [] rs)))"
    using dd_distinct [of key "[]" rs] by (simp only: distinct_card)
  also have "\<dots> = card (key ` set rs)"
    using dd_keys [of key "[]" rs] by simp
  finally show ?thesis .
qed

lemma filter_distinct_one:
  "distinct (map key xs) \<Longrightarrow> r \<in> set xs \<Longrightarrow> filter (\<lambda>x. key x = key r) xs = [r]"
proof (induction xs)
  case Nil
  then show ?case by simp
next
  case (Cons x xs)
  show ?case
  proof (cases "x = r")
    case True
    have "key r \<notin> key ` set xs" using Cons.prems(1) True by simp
    then have "\<forall>y \<in> set xs. key y \<noteq> key r" by (metis imageI)
    then have "filter (\<lambda>y. key y = key r) xs = []"
      by (simp add: filter_empty_conv)
    with True show ?thesis by simp
  next
    case False
    with Cons.prems have rin: "r \<in> set xs" by simp
    with Cons.prems(1) have "key x \<noteq> key r" by auto
    with Cons rin show ?thesis by simp
  qed
qed

lemma remove_duplicates_pair:
  assumes d: "distinct (map email (a @ [r1] @ b @ c))" and e: "email r2 = email r1"
  shows "remove_duplicates email (a @ [r1] @ b @ [r2] @ c) = (a @ [r1] @ b @ c, 1)"
proof -
  let ?front = "a @ [r1] @ b"
  have df: "distinct (map email ?front)" using d by auto
  have front_eq: "drop_duplicates email [] ?front = ?front"
    using df by (rule dd_id) simp
  have seen: "email r2 \<in> set (map email ?front @ [])" using e by simp
  have dc: "distinct (map email c)" using d by simp
  have disj: "set (map email c) \<inter> set (map email ?front @ []) = {}" using d by auto
  have rest_eq: "drop_duplicates email (map email ?front @ []) ([r2] @ c) = c"
    using seen dd_id [OF dc disj] by simp
  have "drop_duplicates email [] (?front @ ([r2] @ c)) = ?front @ c"
    by (simp only: dd_append [of email "[]" "a @ [r1] @ b" "[r2] @ c"] front_eq rest_eq)
  then have "drop_duplicates email [] (a @ [r1] @ b @ [r2] @ c) = a @ [r1] @ b @ c"
    by simp
  then show ?thesis by (simp add: remove_duplicates_def Let_def)
qed

lemma dd_set: "set (drop_duplicates key seen rs) \<subseteq> set rs"
  by (induction rs arbitrary: seen) auto

lemma in_dropWhile: "x \<in> set xs \<Longrightarrow> \<not> P x \<Longrightarrow> x \<in> set (dropWhile P xs)"
  by (induction xs) auto

lemma strip_nonempty:
  assumes x: "x \<in> set s" and ns: "\<not> is_space x"
  shows "strip s \<noteq> []"
proof -
  define y where "y = dropWhile is_space (rev (dropWhile is_space s))"
  have "x \<in> set (rev (dropWhile is_space s))" using x ns by (simp add: in_dropWhile)
  then have "x \<in> set y" unfolding y_def using ns by (rule in_dropWhile)
  then have "y \<noteq> []" by auto
  then have "rev y \<noteq> []" by simp
  then show ?thesis unfolding strip_def y_def .
qed

lemma at_not_space: "\<not> is_space CHR ''@''"
  by (simp add: is_space_def in_range_def)

lemma valid_not_missing: "validate_email c \<Longrightarrow> c \<noteq> NaN"
  by (cases c) simp_all

lemma valid_not_blank: "validate_email c \<Longrightarrow> not_blank c"
proof (cases c)
  case NaN
  then show ?thesis by simp
next
  case (Str s)
  assume "validate_email c"
  then have "re_match email_pattern s" using Str by (simp split: if_splits)
  then have "\<exists>l d t e. s = l @ ''@'' @ d @ ''.'' @ t @ e
        \<and> 1 \<le> length l \<and> (\<forall>c \<in> set l. local_char c)
        \<and> 1 \<le> length d \<and> (\<forall>c \<in> set d. domain_char c)
        \<and> 2 \<le> length t \<and> (\<forall>c \<in> set t. is_letter c) \<and> (e = [] \<or> e = [CHR 0x0A])"
    by (simp only: re_match_shape)
  then obtain l u where "s = l @ ''@'' @ u" by auto
  then have "CHR ''@'' \<in> set s" by simp
  then have "strip s \<noteq> []" using at_not_space by (rule strip_nonempty)
  then show ?thesis by (simp add: Str)
qed

lemma valid_conj:
  "(c \<noteq> NaN \<and> not_blank c \<and> validate_email c) \<longleftrightarrow> validate_email c"
  using valid_not_missing valid_not_blank by blast

lemma clean_rows_Some:
  assumes "clean_rows email df = Inr (Some (kept, invalid_count, duplicate_count))"
  shows "kept = drop_duplicates email [] (filter (\<lambda>r. validate_email (email r)) df)"
    and "duplicate_count = length (filter (\<lambda>r. validate_email (email r)) df) - length kept"
proof -
  let ?df2 = "filter (\<lambda>r. not_blank (email r)) (filter (\<lambda>r. email r \<noteq> NaN) df)"
  have "df \<noteq> []" and "?df2 \<noteq> []"
    using assms by (auto simp: clean_rows_def Let_def split: if_splits)
  then have "clean_rows email df
      = Inr (Some (drop_duplicates email [] (filter (\<lambda>r. validate_email (email r)) df),
                   length (filter (\<lambda>r. \<not> validate_email (email r)) ?df2),
                   length (filter (\<lambda>r. validate_email (email r)) df)
                     - length (drop_duplicates email []
                         (filter (\<lambda>r. validate_email (email r)) df))))"
    by (simp add: clean_rows_def remove_duplicates_def Let_def valid_conj)
  with assms show "kept = drop_duplicates email [] (filter (\<lambda>r. validate_email (email r)) df)"
    and "duplicate_count = length (filter (\<lambda>r. validate_email (email r)) df) - length kept"
    by auto
qed

lemma clean_rows_valid:
  assumes r: "r \<in> set df" and v: "validate_email (email r)"
  shows "clean_rows email df
      = Inr (Some (drop_duplicates email [] (filter (\<lambda>r. validate_email (email r)) df),
                   length (filter (\<lambda>r. \<not> validate_email (email r))
                     (filter (\<lambda>r. not_blank (email r)) (filter (\<lambda>r. email r \<noteq> NaN) df))),
                   length (filter (\<lambda>r. validate_email (email r)) df)
                     - length (drop_duplicates email []
                         (filter (\<lambda>r. validate_email (email r)) df))))"
proof -
  let ?df2 = "filter (\<lambda>r. not_blank (email r)) (filter (\<lambda>r. email r \<noteq> NaN) df)"
  have "email r \<noteq> NaN" and "not_blank (email r)"
    using v by (rule valid_not_missing, rule valid_not_blank)
  then have 2: "?df2 \<noteq> []" using r by (auto simp: filter_empty_conv)
  have 1: "df \<noteq> []" using r by auto
  show ?thesis using 1 2
    by (simp add: clean_rows_def remove_duplicates_def Let_def valid_conj)
qed

lemma find_filter_implied:
  "(\<And>x. P x \<Longrightarrow> Q x) \<Longrightarrow> find P (filter Q xs) = find P xs"
  by (induction xs) auto

lemma clean_rows_kept:
  assumes "clean_rows email df = Inr (Some (kept, invalid_count, duplicate_count))"
  shows "distinct (map email kept)" and "subseq kept df"
    and "\<forall>x \<in> set kept. validate_email (email x)"
    and "length kept + duplicate_count = length (filter (\<lambda>x. validate_email (email x)) df)"
proof -
  let ?valid = "filter (\<lambda>r. validate_email (email r)) df"
  have k: "kept = drop_duplicates email [] ?valid"
    and n: "duplicate_count = length ?valid - length kept"
    using assms by (rule clean_rows_Some)+
  show "distinct (map email kept)" unfolding k by (rule dd_distinct)
  have "subseq kept ?valid" unfolding k by (rule dd_subseq)
  moreover have "subseq ?valid df" by simp
  ultimately show "subseq kept df" by (rule subseq_order.trans)
  have "set kept \<subseteq> set ?valid" unfolding k by (rule dd_set)
  then show "\<forall>x \<in> set kept. validate_email (email x)" by auto
  have "length kept \<le> length ?valid" unfolding k by (rule dd_length)
  then show "length kept + duplicate_count = length ?valid" using n by simp
qed

lemma clean_rows_first:
  assumes r: "r \<in> set df" and v: "validate_email (email r)"
    and c: "clean_rows email df = Inr (Some (kept, invalid_count, duplicate_count))"
  shows "length (filter (\<lambda>x. email x = email r) kept) = 1"
    and "find (\<lambda>x. email x = email r) kept = find (\<lambda>x. email x = email r) df"
proof -
  let ?valid = "filter (\<lambda>r. validate_email (email r)) df"
  have k: "kept = drop_duplicates email [] ?valid" using c by (rule clean_rows_Some(1))
  have d: "distinct (map email kept)" using c by (rule clean_rows_kept(1))
  have "r \<in> set ?valid" using r v by simp
  then have "email r \<in> set (map email ?valid) - set []" by simp
  then have "email r \<in> set (map email kept)" unfolding k by (simp only: dd_keys)
  then obtain r' where r': "r' \<in> set kept" "email r' = email r" by auto
  have "filter (\<lambda>x. email x = email r') kept = [r']"
    using d r'(1) by (rule filter_distinct_one)
  then show "length (filter (\<lambda>x. email x = email r) kept) = 1" using r'(2) by simp
  have "find (\<lambda>x. email x = email r) kept = find (\<lambda>x. email x = email r) ?valid"
    unfolding k by (rule dd_first) simp
  also have "\<dots> = find (\<lambda>x. email x = email r) df"
    using v by (intro find_filter_implied) simp
  finally show "find (\<lambda>x. email x = email r) kept = find (\<lambda>x. email x = email r) df" .
qed

lemma clean_rows_pair:
  assumes v: "\<forall>r \<in> set (a @ [r1] @ b @ c). validate_email (email r)"
    and d: "distinct (map email (a @ [r1] @ b @ c))" and e: "email r2 = email r1"
  shows "clean_rows email (a @ [r1] @ b @ [r2] @ c) = Inr (Some (a @ [r1] @ b @ c, 0, 1))"
proof -
  let ?df = "a @ [r1] @ b @ [r2] @ c"
  have all: "\<forall>r \<in> set ?df. validate_email (email r)" using v e by auto
  then have nn: "\<forall>r \<in> set ?df. email r \<noteq> NaN" and nb: "\<forall>r \<in> set ?df. not_blank (email r)"
    by (auto dest: valid_not_missing valid_not_blank)
  have f1: "filter (\<lambda>r. email r \<noteq> NaN) ?df = ?df" using nn by (simp only: filter_id_conv)
  have f2: "filter (\<lambda>r. not_blank (email r)) ?df = ?df" using nb by (simp only: filter_id_conv)
  have f3: "filter (\<lambda>r. validate_email (email r)) ?df = ?df"
    using all by (simp only: filter_id_conv)
  have f4: "filter (\<lambda>r. \<not> validate_email (email r)) ?df = []"
    using all by (simp only: filter_empty_conv) simp
  have ne: "?df \<noteq> []" by simp
  have p: "remove_duplicates email ?df = (a @ [r1] @ b @ c, 1)"
    using d e by (rule remove_duplicates_pair)
  show ?thesis
    unfolding clean_rows_def Let_def f1 f2 f3 f4 p using ne by simp
qed

text \<open>
  Claim C6, for an address that passes the syntax rule. Ingestion drops the rows with a
  missing, blank or invalid email before it removes duplicates, so the claim holds for
  valid addresses: when a row of the batch has a valid email, ingestion returns rows, and
  exactly one of them has this email, namely the first row of the batch that has it. The
  rows returned are valid, stay in their order, and no two of them share an email. The
  duplicate count is the number of valid rows dropped; it is 1 for a batch of valid rows
  in which a single row repeats the email of an earlier one. The step that removes
  duplicates (lines 160-167) has these properties for any rows. Emails are compared as
  they are written (case-sensitively).
\<close>

theorem ingestion_keeps_first_occurrence:
  "(r \<in> set df \<and> validate_email (email r) \<longrightarrow>
      (\<exists>kept invalid_count duplicate_count.
         clean_rows email df = Inr (Some (kept, invalid_count, duplicate_count))
         \<and> length (filter (\<lambda>x. email x = email r) kept) = 1
         \<and> find (\<lambda>x. email x = email r) kept = find (\<lambda>x. email x = email r) df))
   \<and> (clean_rows email df = Inr (Some (kept, invalid_count, duplicate_count)) \<longrightarrow>
        distinct (map email kept) \<and> subseq kept df
        \<and> (\<forall>x \<in> set kept. validate_email (email x))
        \<and> length kept + duplicate_count
            = length (filter (\<lambda>x. validate_email (email x)) df))
   \<and> ((\<forall>x \<in> set (a @ [r1] @ b @ c). validate_email (email x))
        \<and> distinct (map email (a @ [r1] @ b @ c)) \<and> email r2 = email r1
        \<longrightarrow> clean_rows email (a @ [r1] @ b @ [r2] @ c) = Inr (Some (a @ [r1] @ b @ c, 0, 1)))
   \<and> distinct (map email (fst (remove_duplicates email df)))
   \<and> subseq (fst (remove_duplicates email df)) df
   \<and> (\<forall>x \<in> set df.
         length (filter (\<lambda>y. email y = email x) (fst (remove_duplicates email df))) = 1
         \<and> find (\<lambda>y. email y = email x) (fst (remove_duplicates email df))
             = find (\<lambda>y. email y = email x) df)
   \<and> length (fst (remove_duplicates email df)) + snd (remove_duplicates email df) = length df
   \<and> (distinct (map email (a @ [r1] @ b @ c)) \<and> email r2 = email r1
        \<longrightarrow> remove_duplicates email (a @ [r1] @ b @ [r2] @ c) = (a @ [r1] @ b @ c, 1))"
proof -
  let ?out = "drop_duplicates email [] df"
  have out: "fst (remove_duplicates email df) = ?out"
    by (simp add: remove_duplicates_def Let_def)
  have cnt: "snd (remove_duplicates email df) = length df - length ?out"
    by (simp add: remove_duplicates_def Let_def)
  have i1: "r \<in> set df \<and> validate_email (email r) \<longrightarrow>
      (\<exists>kept invalid_count duplicate_count.
         clean_rows email df = Inr (Some (kept, invalid_count, duplicate_count))
         \<and> length (filter (\<lambda>x. email x = email r) kept) = 1
         \<and> find (\<lambda>x. email x = email r) kept = find (\<lambda>x. email x = email r) df)"
  proof
    assume h: "r \<in> set df \<and> validate_email (email r)"
    then have r: "r \<in> set df" and v: "validate_email (email r)" by simp_all
    from r v obtain k i n where c: "clean_rows email df = Inr (Some (k, i, n))"
      using clean_rows_valid [of r df email] by simp
    have "length (filter (\<lambda>x. email x = email r) k) = 1"
      and "find (\<lambda>x. email x = email r) k = find (\<lambda>x. email x = email r) df"
      using r v c by (rule clean_rows_first)+
    with c show "\<exists>kept invalid_count duplicate_count.
         clean_rows email df = Inr (Some (kept, invalid_count, duplicate_count))
         \<and> length (filter (\<lambda>x. email x = email r) kept) = 1
         \<and> find (\<lambda>x. email x = email r) kept = find (\<lambda>x. email x = email r) df"
      by (intro exI conjI)
  qed
  have i2: "clean_rows email df = Inr (Some (kept, invalid_count, duplicate_count)) \<longrightarrow>
        distinct (map email kept) \<and> subseq kept df
        \<and> (\<forall>x \<in> set kept. validate_email (email x))
        \<and> length kept + duplicate_count
            = length (filter (\<lambda>x. validate_email (email x)) df)"
  proof
    assume c: "clean_rows email df = Inr (Some (kept, invalid_count, duplicate_count))"
    show "distinct (map email kept) \<and> subseq kept df
        \<and> (\<forall>x \<in> set kept. validate_email (email x))
        \<and> length kept + duplicate_count
            = length (filter (\<lambda>x. validate_email (email x)) df)"
      using clean_rows_kept [OF c] by (intro conjI)
  qed
  have i3: "(\<forall>x \<in> set (a @ [r1] @ b @ c). validate_email (email x))
        \<and> distinct (map email (a @ [r1] @ b @ c)) \<and> email r2 = email r1
        \<longrightarrow> clean_rows email (a @ [r1] @ b @ [r2] @ c) = Inr (Some (a @ [r1] @ b @ c, 0, 1))"
  proof
    assume h: "(\<forall>x \<in> set (a @ [r1] @ b @ c). validate_email (email x))
        \<and> distinct (map email (a @ [r1] @ b @ c)) \<and> email r2 = email r1"
    from h have v: "\<forall>x \<in> set (a @ [r1] @ b @ c). validate_email (email x)"
      by (rule conjunct1)
    from h have d: "distinct (map email (a @ [r1] @ b @ c))"
      by (rule conjunct2 [THEN conjunct1])
    from h have e: "email r2 = email r1" by (rule conjunct2 [THEN conjunct2])
    from v d e
    show "clean_rows email (a @ [r1] @ b @ [r2] @ c) = Inr (Some (a @ [r1] @ b @ c, 0, 1))"
      by (rule clean_rows_pair)
  qed
  have 1: "distinct (map email ?out)" by (rule dd_distinct)
  have 2: "subseq ?out df" by (rule dd_subseq)
  have 3: "\<forall>x \<in> set df. length (filter (\<lambda>y. email y = email x) ?out) = 1
         \<and> find (\<lambda>y. email y = email x) ?out = find (\<lambda>y. email y = email x) df"
  proof
    fix x assume "x \<in> set df"
    then have "email x \<in> set (map email df) - set []" by simp
    then have "email x \<in> set (map email ?out)" by (simp only: dd_keys)
    then obtain x' where x': "x' \<in> set ?out" "email x' = email x" by auto
    have "filter (\<lambda>y. email y = email x') ?out = [x']"
      using 1 x'(1) by (rule filter_distinct_one)
    then have "length (filter (\<lambda>y. email y = email x) ?out) = 1"
      using x'(2) by simp
    moreover have "find (\<lambda>y. email y = email x) ?out = find (\<lambda>y. email y = email x) df"
      by (rule dd_first) simp
    ultimately show "length (filter (\<lambda>y. email y = email x) ?out) = 1
         \<and> find (\<lambda>y. email y = email x) ?out = find (\<lambda>y. email y = email x) df"
      by simp
  qed
  have 4: "length ?out + (length df - length ?out) = length df"
    using dd_length [of email "[]" df] by simp
  have 5: "distinct (map email (a @ [r1] @ b @ c)) \<and> email r2 = email r1
        \<longrightarrow> remove_duplicates email (a @ [r1] @ b @ [r2] @ c) = (a @ [r1] @ b @ c, 1)"
  proof
    assume h: "distinct (map email (a @ [r1] @ b @ c)) \<and> email r2 = email r1"
    from h have d: "distinct (map email (a @ [r1] @ b @ c))" by (rule conjunct1)
    from h have e: "email r2 = email r1" by (rule conjunct2)
    from d e show "remove_duplicates email (a @ [r1] @ b @ [r2] @ c) = (a @ [r1] @ b @ c, 1)"
      by (rule remove_duplicates_pair)
  qed
  show ?thesis unfolding out cnt using i1 i2 i3 1 2 3 4 5 by (intro conjI)
qed

theorem ingestion_keeps_first_occurrence_witness:
  "clean_rows fst [(Str ''a@x.com'', 1::nat), (Str ''b@y.org'', 2), (Str ''a@x.com'', 3)]
     = Inr (Some ([(Str ''a@x.com'', 1), (Str ''b@y.org'', 2)], 0, 1))
   \<and> process_table \<lparr>columns = [''Email'', ''Nom''],
        rows = [[Str ''a@x.com'', Str ''Un''], [Str ''bad'', Str ''Deux''],
                [Str ''b@y.org'', Str ''Trois''], [Str ''a@x.com'', Str ''Quatre'']]\<rparr>
     = Inr (\<lparr>columns = [''email'', ''nom''],
             rows = [[Str ''a@x.com'', Str ''Un''], [Str ''b@y.org'', Str ''Trois'']]\<rparr>, 1, 1)"
proof -
  have pre: "(\<forall>x \<in> set ([] @ [(Str ''a@x.com'', 1::nat)] @ [(Str ''b@y.org'', 2)] @ []).
                validate_email (fst x))
      \<and> distinct (map fst ([] @ [(Str ''a@x.com'', 1::nat)] @ [(Str ''b@y.org'', 2)] @ []))
      \<and> fst (Str ''a@x.com'', 3::nat) = fst (Str ''a@x.com'', 1::nat)"
    by code_simp
  note t = ingestion_keeps_first_occurrence [of _ _ fst _ _ _ "[]" "(Str ''a@x.com'', 1::nat)"
      "[(Str ''b@y.org'', 2)]" "[]" "(Str ''a@x.com'', 3)",
      THEN conjunct2, THEN conjunct2, THEN conjunct1, THEN mp, OF pre]
  have p: "process_table \<lparr>columns = [''Email'', ''Nom''],
        rows = [[Str ''a@x.com'', Str ''Un''], [Str ''bad'', Str ''Deux''],
                [Str ''b@y.org'', Str ''Trois''], [Str ''a@x.com'', Str ''Quatre'']]\<rparr>
     = Inr (\<lparr>columns = [''email'', ''nom''],
             rows = [[Str ''a@x.com'', Str ''Un''], [Str ''b@y.org'', Str ''Trois'']]\<rparr>, 1, 1)"
    by code_simp
  from t p show ?thesis by simp
qed

text \<open>
  Claim C6 as stated fails for an address that does not pass the syntax rule: of two rows
  with the email \<open>bad\<close> ingestion keeps none, and it reports them as invalid, not as
  duplicates.
\<close>

theorem invalid_duplicate_counterexample:
  "clean_rows fst [(Str ''bad'', 1::nat), (Str ''bad'', 2)] = Inr (Some ([], 2, 0))
   \<and> process_table \<lparr>columns = [''email''], rows = [[Str ''bad''], [Str ''bad'']]\<rparr>
     = Inr (\<lparr>columns = [''email''], rows = []\<rparr>, 2, 0)"
  by code_simp

section \<open>Properties of template rendering\<close>

lemma str_replace_append:
  "old \<noteq> [] \<Longrightarrow> (\<And>r u. prefix old (r @ t @ u) \<Longrightarrow> prefix old r) \<Longrightarrow>
     str_replace old new (a @ t @ b) = str_replace old new a @ str_replace old new (t @ b)"
proof (induction old new a rule: str_replace.induct)
  case (1 old new)
  then show ?case by simp
next
  case (2 old new c cs)
  note ne = \<open>old \<noteq> []\<close>
  show ?case
  proof (cases "prefix old (c # cs)")
    case True
    then have le: "length old \<le> length (c # cs)" by (rule prefix_length_le)
    from True have "prefix old ((c # cs) @ t @ b)" by (rule prefix_prefix)
    then have p: "prefix old (c # (cs @ t @ b))" by simp
    have "length old - length (c # cs) = 0" using le by simp
    then have "drop (length old) ((c # cs) @ (t @ b)) = drop (length old) (c # cs) @ (t @ b)"
      using drop_append [of "length old" "c # cs" "t @ b"] by (simp only: drop_0)
    then have d: "drop (length old) (c # (cs @ t @ b)) = drop (length old) (c # cs) @ t @ b"
      by (simp only: append_Cons)
    have "str_replace old new ((c # cs) @ t @ b)
          = new @ str_replace old new (drop (length old) (c # cs) @ t @ b)"
      using ne p d by simp
    also have "\<dots> = new @ str_replace old new (drop (length old) (c # cs))
                      @ str_replace old new (t @ b)"
      using "2.IH"(2) [OF ne True ne "2.prems"(2)] by simp
    also have "\<dots> = str_replace old new (c # cs) @ str_replace old new (t @ b)"
      using ne True by simp
    finally show ?thesis .
  next
    case False
    have "\<not> prefix old ((c # cs) @ t @ b)"
      using "2.prems"(2) [of "c # cs" b] False by blast
    then have np: "\<not> prefix old (c # (cs @ t @ b))" by simp
    have "str_replace old new ((c # cs) @ t @ b) = c # str_replace old new (cs @ t @ b)"
      using ne np by simp
    also have "\<dots> = c # str_replace old new cs @ str_replace old new (t @ b)"
      using "2.IH"(3) [OF ne False ne "2.prems"(2)] by simp
    also have "\<dots> = str_replace old new (c # cs) @ str_replace old new (t @ b)"
      using ne False by simp
    finally show ?thesis .
  qed
qed

lemma str_replace_skip:
  assumes ne: "old \<noteq> []"
  shows "(\<And>t1 t2 u. t = t1 @ t2 \<Longrightarrow> t2 \<noteq> [] \<Longrightarrow> \<not> prefix old (t2 @ u))
          \<Longrightarrow> str_replace old new (t @ b) = t @ str_replace old new b"
proof (induction t)
  case Nil
  show ?case by simp
next
  case (Cons c cs)
  have "\<not> prefix old ((c # cs) @ b)"
    using Cons.prems [of "[]" "c # cs" b] by simp
  then have np: "\<not> prefix old (c # (cs @ b))" by simp
  have "\<And>t1 t2 u. cs = t1 @ t2 \<Longrightarrow> t2 \<noteq> [] \<Longrightarrow> \<not> prefix old (t2 @ u)"
  proof -
    fix t1 t2 u assume "cs = t1 @ t2" "t2 \<noteq> []"
    then have "c # cs = (c # t1) @ t2" by simp
    then show "\<not> prefix old (t2 @ u)" using \<open>t2 \<noteq> []\<close> by (rule Cons.prems)
  qed
  then have "str_replace old new (cs @ b) = cs @ str_replace old new b"
    by (rule Cons.IH)
  then show ?case using ne np by simp
qed

lemma token_nonempty: "token k \<noteq> []"
  by (simp add: token_def)

lemma token_Cons: "token k = CHR ''{'' # CHR ''{'' # (k @ ''}}'')"
  by (simp add: token_def)

lemma takeWhile_key:
  "CHR ''}'' \<notin> set k \<Longrightarrow> takeWhile (\<lambda>c. c \<noteq> CHR ''}'') (k @ CHR ''}'' # u) = k"
  by (induction k) auto

lemma token_prefix_eq:
  assumes "brace_free k" "brace_free x" "token x @ u = token k @ z"
  shows "k = x"
proof -
  from assms(3) have "x @ ''}}'' @ u = k @ ''}}'' @ z" by (simp add: token_def)
  then have "takeWhile (\<lambda>c. c \<noteq> CHR ''}'') (x @ ''}}'' @ u)
             = takeWhile (\<lambda>c. c \<noteq> CHR ''}'') (k @ ''}}'' @ z)"
    by (rule arg_cong)
  moreover have "takeWhile (\<lambda>c. c \<noteq> CHR ''}'') (x @ ''}}'' @ u) = x"
    using assms(2) by (simp add: brace_free_def takeWhile_key)
  moreover have "takeWhile (\<lambda>c. c \<noteq> CHR ''}'') (k @ ''}}'' @ z) = k"
    using assms(1) by (simp add: brace_free_def takeWhile_key)
  ultimately show ?thesis by simp
qed

text \<open>No proper nonempty suffix of a token begins another token.\<close>

lemma token_suffix_no_prefix:
  assumes bk: "brace_free k" and bx: "brace_free x" and kx: "k \<noteq> x"
    and split: "token x = t1 @ t2" and ne: "t2 \<noteq> []"
  shows "\<not> prefix (token k) (t2 @ u)"
proof
  assume "prefix (token k) (t2 @ u)"
  then obtain z where z: "t2 @ u = token k @ z" by (auto simp: prefix_def)
  then have hd2: "hd t2 = CHR ''{''" using ne by (cases t2) (auto simp: token_Cons)
  show False
  proof (cases t1)
    case Nil
    with split z have "token x @ u = token k @ z" by simp
    with bk bx have "k = x" by (rule token_prefix_eq)
    with kx show False by contradiction
  next
    case (Cons c1 t1')
    note c1 = this
    show False
    proof (cases t1')
      case Nil
      with c1 split have t2: "t2 = CHR ''{'' # (x @ ''}}'')" by (auto simp: token_Cons)
      with z have "x @ ''}}'' @ u = CHR ''{'' # (k @ ''}}'') @ z" by (simp add: token_Cons)
      then have "hd (x @ ''}}'' @ u) = CHR ''{''" by simp
      moreover have "hd (x @ ''}}'' @ u) \<noteq> CHR ''{''"
        using bx by (cases x) (auto simp: brace_free_def)
      ultimately show False by contradiction
    next
      case (Cons c2 t1'')
      with c1 split have "x @ ''}}'' = t1'' @ t2" by (simp add: token_Cons)
      then have "set t2 \<subseteq> set (x @ ''}}'')" by (metis set_append sup_ge2)
      then have "hd t2 \<in> set (x @ ''}}'')" using ne by (metis hd_in_set subsetD)
      then have "hd t2 \<noteq> CHR ''{''" using bx by (auto simp: brace_free_def)
      with hd2 show False by contradiction
    qed
  qed
qed

lemma token_no_straddle:
  assumes bk: "brace_free k" and bx: "brace_free x" and kx: "k \<noteq> x"
    and p: "prefix (token k) (r @ token x @ u)"
  shows "prefix (token k) r"
proof (rule ccontr)
  assume np: "\<not> prefix (token k) r"
  from p obtain z where z: "r @ token x @ u = token k @ z" by (auto simp: prefix_def)
  then consider w where "r = token k @ w" | w where "r @ w = token k" "token x @ u = w @ z"
    by (auto simp: append_eq_append_conv2)
  then show False
  proof cases
    case 1
    then have "prefix (token k) r" by simp
    with np show False by contradiction
  next
    case 2
    have wne: "w \<noteq> []" using 2(1) np by auto
    then have hdw: "hd w = CHR ''{''" using 2(2) by (cases w) (auto simp: token_Cons)
    show False
    proof (cases r)
      case Nil
      with 2 have "token x @ u = token k @ z" by simp
      with bk bx have "k = x" by (rule token_prefix_eq)
      with kx show False by contradiction
    next
      case (Cons c1 r')
      note c1 = this
      show False
      proof (cases r')
        case Nil
        with c1 2(1) have w: "w = CHR ''{'' # (k @ ''}}'')" by (auto simp: token_Cons)
        with 2(2) have "CHR ''{'' # (x @ ''}}'' @ u) = (k @ ''}}'') @ z"
          by (simp add: token_Cons)
        then have "hd (k @ ''}}'' @ z) = CHR ''{''" by (metis append_assoc list.sel(1))
        moreover have "hd (k @ ''}}'' @ z) \<noteq> CHR ''{''"
          using bk by (cases k) (auto simp: brace_free_def)
        ultimately show False by contradiction
      next
        case (Cons c2 r'')
        with c1 2(1) have "k @ ''}}'' = r'' @ w" by (simp add: token_Cons)
        then have "set w \<subseteq> set (k @ ''}}'')" by (metis set_append sup_ge2)
        then have "hd w \<in> set (k @ ''}}'')" using wne by (metis hd_in_set subsetD)
        then have "hd w \<noteq> CHR ''{''" using bk by (auto simp: brace_free_def)
        with hdw show False by contradiction
      qed
    qed
  qed
qed

lemma str_replace_token_frame:
  assumes bk: "brace_free k" and bx: "brace_free x" and kx: "k \<noteq> x"
  shows "str_replace (token k) v (a @ token x @ b)
         = str_replace (token k) v a @ token x @ str_replace (token k) v b"
proof -
  have "str_replace (token k) v (a @ token x @ b)
        = str_replace (token k) v a @ str_replace (token k) v (token x @ b)"
    using token_nonempty token_no_straddle [OF bk bx kx] by (rule str_replace_append)
  also have "str_replace (token k) v (token x @ b) = token x @ str_replace (token k) v b"
    using token_nonempty token_suffix_no_prefix [OF bk bx kx] by (rule str_replace_skip)
  finally show ?thesis .
qed

lemma apply_replacements_frame:
  "brace_free x \<Longrightarrow> \<forall>k \<in> set (map fst reps). brace_free k \<and> k \<noteq> x \<Longrightarrow>
     apply_replacements reps (a @ token x @ b)
     = apply_replacements reps a @ token x @ apply_replacements reps b"
proof (induction reps arbitrary: a b)
  case Nil
  show ?case by (simp add: apply_replacements_def)
next
  case (Cons p reps)
  obtain k v where p: "p = (k, v)" by (cases p)
  have bk: "brace_free k" and kx: "k \<noteq> x" using Cons.prems(2) p by simp_all
  have rest: "\<forall>k \<in> set (map fst reps). brace_free k \<and> k \<noteq> x" using Cons.prems(2) by simp
  have "apply_replacements (p # reps) (a @ token x @ b)
        = apply_replacements reps (str_replace (token k) v (a @ token x @ b))"
    by (simp add: apply_replacements_def p)
  also have "\<dots> = apply_replacements reps
        (str_replace (token k) v a @ token x @ str_replace (token k) v b)"
    by (simp only: str_replace_token_frame [OF bk Cons.prems(1) kx])
  also have "\<dots> = apply_replacements reps (str_replace (token k) v a) @ token x
        @ apply_replacements reps (str_replace (token k) v b)"
    using Cons.prems(1) rest by (rule Cons.IH)
  also have "\<dots> = apply_replacements (p # reps) a @ token x @ apply_replacements (p # reps) b"
    by (simp add: apply_replacements_def p)
  finally show ?case .
qed

lemma dict_set_map_fst:
  "map fst (dict_set k v d) = (if k \<in> set (map fst d) then map fst d else map fst d @ [k])"
proof (induction d)
  case Nil
  show ?case by simp
next
  case (Cons p d)
  obtain k' v' where p: "p = (k', v')" by (cases p)
  show ?case
  proof (cases "k' = k")
    case True
    then show ?thesis by (simp add: p)
  next
    case False
    then have "k \<in> set (map fst (p # d)) \<longleftrightarrow> k \<in> set (map fst d)"
      by (auto simp: p)
    then show ?thesis using False Cons.IH by (simp add: p)
  qed
qed

lemma dict_set_keys: "set (map fst (dict_set k v d)) = insert k (set (map fst d))"
  by (cases "k \<in> set (map fst d)") (simp_all only: dict_set_map_fst if_True if_False
      insert_absorb set_append list.set Un_insert_right Un_empty_right)

lemma foldl_dict_set_keys:
  "set (map fst (foldl (\<lambda>d (key, v). dict_set key (f v) d) d0 c))
     = set (map fst d0) \<union> set (map fst c)"
proof (induction c arbitrary: d0)
  case Nil
  show ?case by simp
next
  case (Cons p c)
  obtain k v where p: "p = (k, v)" by (cases p)
  have "set (map fst (foldl (\<lambda>d (key, v). dict_set key (f v) d) d0 (p # c)))
        = set (map fst (dict_set k (f v) d0)) \<union> set (map fst c)"
    using Cons.IH [of "dict_set k (f v) d0"] by (simp add: p)
  also have "\<dots> = set (map fst d0) \<union> set (map fst (p # c))"
    by (simp only: dict_set_keys) (simp add: p)
  finally show ?case .
qed

lemma contact_replacements_keys:
  "set (map fst (contact_replacements c)) = set (map fst c)"
  using foldl_dict_set_keys [of str_value "[]" c] by (simp add: contact_replacements_def)

lemma smtp_replacements_keys:
  "set (map fst (smtp_replacements self c))
     = {''sender_email'', ''sender_name''} \<union> set (map fst c)"
  by (simp only: smtp_replacements_def dict_set_keys contact_replacements_keys) simp

lemma gmail_replacements_keys:
  "set (map fst (gmail_replacements self c)) = {''sender_email''} \<union> set (map fst c)"
  by (simp only: gmail_replacements_def dict_set_keys contact_replacements_keys) simp

lemma sender_keys_brace_free: "brace_free ''sender_email''" "brace_free ''sender_name''"
  by (simp_all add: brace_free_def)

lemma replacements_frame:
  assumes bx: "brace_free x"
    and bc: "\<forall>k \<in> set (map fst contact). brace_free k"
    and keys: "set (map fst reps) \<subseteq> {''sender_email'', ''sender_name''} \<union> set (map fst contact)"
    and absent: "x \<notin> set (map fst reps)"
  shows "apply_replacements reps (a @ token x @ b)
         = apply_replacements reps a @ token x @ apply_replacements reps b"
proof -
  have "\<forall>k \<in> set (map fst reps). brace_free k \<and> k \<noteq> x"
  proof
    fix k assume k: "k \<in> set (map fst reps)"
    with keys have "k = ''sender_email'' \<or> k = ''sender_name'' \<or> k \<in> set (map fst contact)"
      by auto
    then have "brace_free k" using bc sender_keys_brace_free by auto
    moreover have "k \<noteq> x" using k absent by auto
    ultimately show "brace_free k \<and> k \<noteq> x" by simp
  qed
  with bx show ?thesis by (rule apply_replacements_frame)
qed

text \<open>
  Claim C4, amended. Rendering is a total function: it returns a pair for every subject,
  body and contact. A token \<open>{{x}}\<close> whose key \<open>x\<close> is absent from the replacement mapping
  stays where it is, the text before and after it being rendered on its own, when neither
  \<open>x\<close> nor a field name of the contact contains a brace; this holds for both senders.
  With the sender name \<open>Alice\<close>, the SMTP sender renders
  \<open>("Hello {{nom}}", "Dear {{nom}}, from {{sender_name}}")\<close> against \<open>{nom: "Durand"}\<close> as
  \<open>("Hello Durand", "Dear Durand, from Alice")\<close>.
\<close>

theorem absent_token_left_verbatim:
  "(brace_free x \<and> (\<forall>k \<in> set (map fst contact). brace_free k)
      \<and> x \<notin> set (map fst (smtp_replacements smtp contact))
    \<longrightarrow> smtp_prepare_email_content smtp (sa @ token x @ sb) (ca @ token x @ cb) contact
        = (apply_replacements (smtp_replacements smtp contact) sa @ token x
             @ apply_replacements (smtp_replacements smtp contact) sb,
           apply_replacements (smtp_replacements smtp contact) ca @ token x
             @ apply_replacements (smtp_replacements smtp contact) cb))
   \<and> (brace_free x \<and> (\<forall>k \<in> set (map fst contact). brace_free k)
      \<and> x \<notin> set (map fst (gmail_replacements gmail contact))
    \<longrightarrow> gmail_prepare_email_content gmail (sa @ token x @ sb) (ca @ token x @ cb) contact
        = (apply_replacements (gmail_replacements gmail contact) sa @ token x
             @ apply_replacements (gmail_replacements gmail contact) sb,
           apply_replacements (gmail_replacements gmail contact) ca @ token x
             @ apply_replacements (gmail_replacements gmail contact) cb))
   \<and> smtp_prepare_email_content (smtp\<lparr>sender_name := ''Alice''\<rparr>)
         ''Hello {{nom}}'' ''Dear {{nom}}, from {{sender_name}}'' [(''nom'', Str ''Durand'')]
       = (''Hello Durand'', ''Dear Durand, from Alice'')"
proof (intro conjI impI)
  assume h: "brace_free x \<and> (\<forall>k \<in> set (map fst contact). brace_free k)
      \<and> x \<notin> set (map fst (smtp_replacements smtp contact))"
  let ?r = "smtp_replacements smtp contact"
  have keys: "set (map fst ?r) \<subseteq> {''sender_email'', ''sender_name''} \<union> set (map fst contact)"
    by (simp only: smtp_replacements_keys subset_refl)
  have "\<And>a b. apply_replacements ?r (a @ token x @ b)
         = apply_replacements ?r a @ token x @ apply_replacements ?r b"
    using h keys by (intro replacements_frame) simp_all
  then show "smtp_prepare_email_content smtp (sa @ token x @ sb) (ca @ token x @ cb) contact
        = (apply_replacements ?r sa @ token x @ apply_replacements ?r sb,
           apply_replacements ?r ca @ token x @ apply_replacements ?r cb)"
    by (simp only: smtp_prepare_email_content_def Let_def)
next
  assume h: "brace_free x \<and> (\<forall>k \<in> set (map fst contact). brace_free k)
      \<and> x \<notin> set (map fst (gmail_replacements gmail contact))"
  let ?r = "gmail_replacements gmail contact"
  have keys: "set (map fst ?r) \<subseteq> {''sender_email'', ''sender_name''} \<union> set (map fst contact)"
    by (simp only: gmail_replacements_keys) auto
  have "\<And>a b. apply_replacements ?r (a @ token x @ b)
         = apply_replacements ?r a @ token x @ apply_replacements ?r b"
    using h keys by (intro replacements_frame) simp_all
  then show "gmail_prepare_email_content gmail (sa @ token x @ sb) (ca @ token x @ cb) contact
        = (apply_replacements ?r sa @ token x @ apply_replacements ?r sb,
           apply_replacements ?r ca @ token x @ apply_replacements ?r cb)"
    by (simp only: gmail_prepare_email_content_def Let_def)
next
  show "smtp_prepare_email_content (smtp\<lparr>sender_name := ''Alice''\<rparr>)
         ''Hello {{nom}}'' ''Dear {{nom}}, from {{sender_name}}'' [(''nom'', Str ''Durand'')]
       = (''Hello Durand'', ''Dear Durand, from Alice'')"
    by (simp add: smtp_prepare_email_content_def smtp_replacements_def
        contact_replacements_def apply_replacements_def token_def)
qed

theorem absent_token_left_verbatim_witness:
  "smtp_prepare_email_content
     \<lparr>smtp_server = ''smtp.example.org'', smtp_port = 587, use_tls = True, use_ssl = False,
      sender_email = ''alice@example.org'', sender_password = ''secret'',
      sender_name = ''Alice'', reply_to_email = ''alice@example.org''\<rparr>
     ''Hello {{nom}} {{unknown}}!'' ''{{unknown}}'' [(''nom'', Str ''Durand'')]
   = (''Hello Durand {{unknown}}!'', ''{{unknown}}'')"
  using absent_token_left_verbatim [where x = "''unknown''"
      and contact = "[(''nom'', Str ''Durand'')]"
      and smtp = "\<lparr>smtp_server = ''smtp.example.org'', smtp_port = 587, use_tls = True,
          use_ssl = False, sender_email = ''alice@example.org'', sender_password = ''secret'',
          sender_name = ''Alice'', reply_to_email = ''alice@example.org''\<rparr>"
      and sa = "''Hello {{nom}} ''" and sb = "''!''" and ca = "[]" and cb = "[]"]
  by (simp add: brace_free_def token_def smtp_replacements_def contact_replacements_def
      apply_replacements_def)

text \<open>
  Claim C4 as stated fails for a field name with braces: with the column \<open>x}}{{y\<close>, the
  template \<open>{{x}}{{y}}\<close> holds the tokens of the absent keys \<open>x\<close> and \<open>y\<close> and is
  rendered as the value of the column.
\<close>

theorem absent_token_replaced_counterexample:
  "''x'' \<notin> set (map fst (smtp_replacements
       \<lparr>smtp_server = ''smtp.example.org'', smtp_port = 587, use_tls = True, use_ssl = False,
        sender_email = ''alice@example.org'', sender_password = ''secret'',
        sender_name = ''Alice'', reply_to_email = ''alice@example.org''\<rparr>
       [(''x}}{{y'', Str ''v'')]))
   \<and> smtp_prepare_email_content
       \<lparr>smtp_server = ''smtp.example.org'', smtp_port = 587, use_tls = True, use_ssl = False,
        sender_email = ''alice@example.org'', sender_password = ''secret'',
        sender_name = ''Alice'', reply_to_email = ''alice@example.org''\<rparr>
       (token ''x'' @ token ''y'') (token ''x'') [(''x}}{{y'', Str ''v'')]
     = (''v'', ''{{x}}'')"
  by (simp add: token_def smtp_prepare_email_content_def smtp_replacements_def
      contact_replacements_def apply_replacements_def)

section \<open>The replacement mapping\<close>

lemma map_of_dict_set: "map_of (dict_set k v d) = (map_of d)(k \<mapsto> v)"
proof (induction d)
  case Nil
  show ?case by simp
next
  case (Cons p d)
  obtain k' v' where p: "p = (k', v')" by (cases p)
  show ?case
  proof (cases "k' = k")
    case True
    then show ?thesis by (auto simp: p fun_eq_iff)
  next
    case False
    then show ?thesis using Cons.IH by (auto simp: p fun_upd_twist)
  qed
qed

lemma map_of_foldl_dict_set:
  "distinct (map fst c) \<Longrightarrow>
     map_of (foldl (\<lambda>d (key, v). dict_set key (f v) d) d0 c)
       = map_of d0 ++ (\<lambda>a. map_option f (map_of c a))"
proof (induction c arbitrary: d0)
  case Nil
  show ?case by simp
next
  case (Cons p c)
  obtain k v where p: "p = (k, v)" by (cases p)
  have dc: "distinct (map fst c)" and knin: "k \<notin> set (map fst c)"
    using Cons.prems by (simp_all add: p)
  have none: "map_of c k = None" using knin by (simp add: map_of_eq_None_iff)
  have "map_of (foldl (\<lambda>d (key, v). dict_set key (f v) d) d0 (p # c))
        = map_of (dict_set k (f v) d0) ++ (\<lambda>a. map_option f (map_of c a))"
    using Cons.IH [OF dc, of "dict_set k (f v) d0"] by (simp add: p)
  also have "\<dots> = (map_of d0)(k \<mapsto> f v) ++ (\<lambda>a. map_option f (map_of c a))"
    by (simp only: map_of_dict_set)
  also have "\<dots> = map_of d0 ++ (\<lambda>a. map_option f (map_of (p # c) a))"
  proof
    fix y
    show "((map_of d0)(k \<mapsto> f v) ++ (\<lambda>a. map_option f (map_of c a))) y
          = (map_of d0 ++ (\<lambda>a. map_option f (map_of (p # c) a))) y"
      using none by (cases "y = k") (simp_all add: p map_add_def split: option.splits)
  qed
  finally show ?case .
qed

lemma map_of_contact_replacements:
  "distinct (map fst contact) \<Longrightarrow>
     map_of (contact_replacements contact) = (\<lambda>a. map_option str_value (map_of contact a))"
  using map_of_foldl_dict_set [of contact str_value "[]"]
  by (simp add: contact_replacements_def)

lemma str_value_cases: "str_value = (\<lambda>v. case v of Str t \<Rightarrow> t | NaN \<Rightarrow> [])"
proof
  fix v
  show "str_value v = (case v of Str t \<Rightarrow> t | NaN \<Rightarrow> [])" by (cases v) simp_all
qed

text \<open>
  Claim C5. For a contact (a dict: its keys are distinct), the replacement mapping of the
  SMTP sender has, for every field of the contact, the text of the field unchanged when
  the field holds a text and the empty string when it holds a missing value, and it has
  \<open>sender_name\<close> and \<open>sender_email\<close> set from the sender. That of the Gmail sender has
  the same entries for the fields and sets \<open>sender_email\<close> only, so it has no entry for
  \<open>sender_name\<close> unless the contact has a field of that name.
\<close>

theorem replacement_mapping:
  "distinct (map fst contact) \<longrightarrow>
     map_of (smtp_replacements smtp contact)
       = (\<lambda>a. case map_of contact a of
                 None \<Rightarrow> None | Some (Str t) \<Rightarrow> Some t | Some NaN \<Rightarrow> Some [])
           (''sender_name'' \<mapsto> sender_name smtp, ''sender_email'' \<mapsto> sender_email smtp)
     \<and> map_of (gmail_replacements gmail contact)
       = (\<lambda>a. case map_of contact a of
                 None \<Rightarrow> None | Some (Str t) \<Rightarrow> Some t | Some NaN \<Rightarrow> Some [])
           (''sender_email'' \<mapsto> (case gmail_sender_email gmail of None \<Rightarrow> [] | Some e \<Rightarrow> e))
     \<and> (''sender_name'' \<notin> set (map fst contact)
          \<longrightarrow> map_of (gmail_replacements gmail contact) ''sender_name'' = None)"
proof
  assume d: "distinct (map fst contact)"
  let ?fields = "\<lambda>a. case map_of contact a of
                 None \<Rightarrow> None | Some (Str t) \<Rightarrow> Some t | Some NaN \<Rightarrow> Some []"
  have "map_of (contact_replacements contact) = (\<lambda>a. map_option str_value (map_of contact a))"
    using d by (rule map_of_contact_replacements)
  also have "\<dots> = ?fields"
  proof
    fix a
    show "map_option str_value (map_of contact a) = ?fields a"
      by (simp add: str_value_cases split: option.splits cell.splits)
  qed
  finally have c: "map_of (contact_replacements contact) = ?fields" .
  have 1: "map_of (smtp_replacements smtp contact)
       = ?fields(''sender_name'' \<mapsto> sender_name smtp, ''sender_email'' \<mapsto> sender_email smtp)"
    by (simp only: smtp_replacements_def map_of_dict_set c)
  have 2: "map_of (gmail_replacements gmail contact)
       = ?fields(''sender_email'' \<mapsto> (case gmail_sender_email gmail of None \<Rightarrow> [] | Some e \<Rightarrow> e))"
    by (simp only: gmail_replacements_def map_of_dict_set c)
  have 3: "''sender_name'' \<notin> set (map fst contact)
          \<longrightarrow> map_of (gmail_replacements gmail contact) ''sender_name'' = None"
  proof
    assume "''sender_name'' \<notin> set (map fst contact)"
    then have "map_of contact ''sender_name'' = None" by (simp add: map_of_eq_None_iff)
    then show "map_of (gmail_replacements gmail contact) ''sender_name'' = None"
      by (simp add: 2)
  qed
  from 1 2 3 show "map_of (smtp_replacements smtp contact)
       = ?fields(''sender_name'' \<mapsto> sender_name smtp, ''sender_email'' \<mapsto> sender_email smtp)
     \<and> map_of (gmail_replacements gmail contact)
       = ?fields(''sender_email'' \<mapsto> (case gmail_sender_email gmail of None \<Rightarrow> [] | Some e \<Rightarrow> e))
     \<and> (''sender_name'' \<notin> set (map fst contact)
          \<longrightarrow> map_of (gmail_replacements gmail contact) ''sender_name'' = None)"
    by (intro conjI)
qed

theorem replacement_mapping_witness:
  "map_of (smtp_replacements
       \<lparr>smtp_server = ''smtp.example.org'', smtp_port = 587, use_tls = True, use_ssl = False,
        sender_email = ''alice@example.org'', sender_password = ''secret'',
        sender_name = ''Alice'', reply_to_email = ''alice@example.org''\<rparr>
       [(''email'', Str ''jean@example.fr''), (''nom'', NaN)]) ''email'' = Some ''jean@example.fr''
   \<and> map_of (smtp_replacements
       \<lparr>smtp_server = ''smtp.example.org'', smtp_port = 587, use_tls = True, use_ssl = False,
        sender_email = ''alice@example.org'', sender_password = ''secret'',
        sender_name = ''Alice'', reply_to_email = ''alice@example.org''\<rparr>
       [(''email'', Str ''jean@example.fr''), (''nom'', NaN)]) ''nom'' = Some []
   \<and> map_of (smtp_replacements
       \<lparr>smtp_server = ''smtp.example.org'', smtp_port = 587, use_tls = True, use_ssl = False,
        sender_email = ''alice@example.org'', sender_password = ''secret'',
        sender_name = ''Alice'', reply_to_email = ''alice@example.org''\<rparr>
       [(''email'', Str ''jean@example.fr''), (''nom'', NaN)]) ''sender_name'' = Some ''Alice''
   \<and> map_of (smtp_replacements
       \<lparr>smtp_server = ''smtp.example.org'', smtp_port = 587, use_tls = True, use_ssl = False,
        sender_email = ''alice@example.org'', sender_password = ''secret'',
        sender_name = ''Alice'', reply_to_email = ''alice@example.org''\<rparr>
       [(''email'', Str ''jean@example.fr''), (''nom'', NaN)]) ''sender_email'' = Some ''alice@example.org''
   \<and> map_of (gmail_replacements
       \<lparr>gmail_service = True, gmail_sender_email = Some ''alice@example.org'',
        gmail_sender_name = ''Alice''\<rparr>
       [(''email'', Str ''jean@example.fr''), (''nom'', NaN)]) ''email'' = Some ''jean@example.fr''
   \<and> map_of (gmail_replacements
       \<lparr>gmail_service = True, gmail_sender_email = Some ''alice@example.org'',
        gmail_sender_name = ''Alice''\<rparr>
       [(''email'', Str ''jean@example.fr''), (''nom'', NaN)]) ''nom'' = Some []
   \<and> map_of (gmail_replacements
       \<lparr>gmail_service = True, gmail_sender_email = Some ''alice@example.org'',
        gmail_sender_name = ''Alice''\<rparr>
       [(''email'', Str ''jean@example.fr''), (''nom'', NaN)]) ''sender_email'' = Some ''alice@example.org''
   \<and> map_of (gmail_replacements
       \<lparr>gmail_service = True, gmail_sender_email = Some ''alice@example.org'',
        gmail_sender_name = ''Alice''\<rparr>
       [(''email'', Str ''jean@example.fr''), (''nom'', NaN)]) ''sender_name'' = None
   \<and> gmail_prepare_email_content
       \<lparr>gmail_service = True, gmail_sender_email = Some ''alice@example.org'',
        gmail_sender_name = ''Alice''\<rparr>
       ''De {{sender_name}}'' ''{{email}}, {{nom}}, {{sender_email}}''
       [(''email'', Str ''jean@example.fr''), (''nom'', NaN)]
     = (''De {{sender_name}}'', ''jean@example.fr, , alice@example.org'')"
proof -
  let ?c = "[(''email'', Str ''jean@example.fr''), (''nom'', NaN)]"
  let ?smtp = "\<lparr>smtp_server = ''smtp.example.org'', smtp_port = 587, use_tls = True, use_ssl = False,
        sender_email = ''alice@example.org'', sender_password = ''secret'',
        sender_name = ''Alice'', reply_to_email = ''alice@example.org''\<rparr>"
  let ?gmail = "\<lparr>gmail_service = True, gmail_sender_email = Some ''alice@example.org'',
        gmail_sender_name = ''Alice''\<rparr>"
  have d: "distinct (map fst ?c)" by simp
  note t = replacement_mapping [of ?c ?smtp ?gmail, THEN mp, OF d]
  note m1 = t [THEN conjunct1]
  note m2 = t [THEN conjunct2, THEN conjunct1]
  have n: "''sender_name'' \<notin> set (map fst ?c)" by simp
  note m3 = t [THEN conjunct2, THEN conjunct2, THEN mp, OF n]
  have r: "gmail_prepare_email_content ?gmail
       ''De {{sender_name}}'' ''{{email}}, {{nom}}, {{sender_email}}'' ?c
     = (''De {{sender_name}}'', ''jean@example.fr, , alice@example.org'')"
    by (simp add: gmail_prepare_email_content_def gmail_replacements_def
        contact_replacements_def apply_replacements_def token_def)
  show ?thesis unfolding m1 m2 using m3 r by simp
qed

section \<open>Validation of the recipient when sending\<close>

text \<open>
  Claim C2 (the code departs from it for one sender). The SMTP sender checks the recipient
  with the rule of \<open>validate_email\<close> before anything else: a recipient the rule rejects
  gives \<open>False\<close> and no transmission. The Gmail sender only checks that the recipient
  is not empty: for every non-empty recipient, valid or not, the message is handed to the
  API.
\<close>

theorem recipient_validation_at_send:
  "(\<not> validate_email (dict_get contact ''email'' (Str []))
      \<longrightarrow> smtp_send_email transport smtp contact subject content is_html atts sent = (False, sent))
   \<and> (gmail_service gmail \<and> dict_get contact ''email'' (Str []) = Str recipient
        \<and> recipient \<noteq> []
      \<longrightarrow> snd (gmail_send_email api gmail contact subject content is_html atts sent)
          = sent @ [create_message gmail recipient
                      (fst (gmail_prepare_email_content gmail subject content contact))
                      (snd (gmail_prepare_email_content gmail subject content contact))
                      is_html atts])"
proof (intro conjI impI)
  assume inv: "\<not> validate_email (dict_get contact ''email'' (Str []))"
  show "smtp_send_email transport smtp contact subject content is_html atts sent = (False, sent)"
  proof (cases "dict_get contact ''email'' (Str [])")
    case NaN
    then show ?thesis by (simp add: smtp_send_email_def)
  next
    case (Str r)
    with inv have "r = [] \<or> \<not> is_valid_email r"
      by (auto simp: is_valid_email_def)
    with Str show ?thesis by (simp add: smtp_send_email_def)
  qed
next
  assume h: "gmail_service gmail \<and> dict_get contact ''email'' (Str []) = Str recipient
        \<and> recipient \<noteq> []"
  then show "snd (gmail_send_email api gmail contact subject content is_html atts sent)
          = sent @ [create_message gmail recipient
                      (fst (gmail_prepare_email_content gmail subject content contact))
                      (snd (gmail_prepare_email_content gmail subject content contact))
                      is_html atts]"
    by (simp add: gmail_send_email_def split_beta Let_def)
qed

theorem recipient_validation_at_send_witness:
  "\<not> validate_email (Str ''not-an-address'')
   \<and> smtp_send_email (\<lambda>m. Delivered)
       \<lparr>smtp_server = ''smtp.example.org'', smtp_port = 587, use_tls = True, use_ssl = False,
        sender_email = ''alice@example.org'', sender_password = ''secret'',
        sender_name = ''Alice'', reply_to_email = ''alice@example.org''\<rparr>
       [(''email'', Str ''not-an-address'')] ''Hi'' ''Text'' False [] [] = (False, [])
   \<and> gmail_send_email (\<lambda>m. True)
       \<lparr>gmail_service = True, gmail_sender_email = Some ''alice@example.org'',
        gmail_sender_name = ''Alice''\<rparr>
       [(''email'', Str ''not-an-address'')] ''Hi'' ''Text'' False [] []
     = (True,
        [\<lparr>header_from = (Some ''Alice'', Some ''alice@example.org''),
          header_to = ''not-an-address'', header_subject = ''Hi'', header_reply_to = None,
          body = ''Text'', body_is_html = False, multipart = False, attachments = []\<rparr>])"
proof (intro conjI)
  show nv: "\<not> validate_email (Str ''not-an-address'')"
    by (simp add: re_match_def email_pattern_def local_char_def domain_char_def
        is_alnum_def is_letter_def in_range_def)
  show "smtp_send_email (\<lambda>m. Delivered)
       \<lparr>smtp_server = ''smtp.example.org'', smtp_port = 587, use_tls = True, use_ssl = False,
        sender_email = ''alice@example.org'', sender_password = ''secret'',
        sender_name = ''Alice'', reply_to_email = ''alice@example.org''\<rparr>
       [(''email'', Str ''not-an-address'')] ''Hi'' ''Text'' False [] [] = (False, [])"
    using nv recipient_validation_at_send [where contact = "[(''email'', Str ''not-an-address'')]"
        and sent = "[]"]
    by (simp add: dict_get_def)
  show "gmail_send_email (\<lambda>m. True)
       \<lparr>gmail_service = True, gmail_sender_email = Some ''alice@example.org'',
        gmail_sender_name = ''Alice''\<rparr>
       [(''email'', Str ''not-an-address'')] ''Hi'' ''Text'' False [] []
     = (True,
        [\<lparr>header_from = (Some ''Alice'', Some ''alice@example.org''),
          header_to = ''not-an-address'', header_subject = ''Hi'', header_reply_to = None,
          body = ''Text'', body_is_html = False, multipart = False, attachments = []\<rparr>])"
    by (simp add: gmail_send_email_def dict_get_def gmail_prepare_email_content_def
        gmail_replacements_def contact_replacements_def apply_replacements_def token_def
        create_message_def)
qed

section \<open>Properties of the bulk send loop\<close>

lemma clear_active_idem:
  "\<not> active (status s) \<Longrightarrow> s\<lparr>status := (status s)\<lparr>active := False\<rparr>\<rparr> = s"
  by simp

lemma send_loop_inactive:
  "\<not> active (status s) \<Longrightarrow> send_loop send now stop i cs s = s"
  by (cases cs) (simp_all add: Let_def)

lemma iteration_status:
  "status (iteration send now c s) =
     (case fst (send c (world s)) of
        Returned True \<Rightarrow> (status s)\<lparr>progress := progress (status s) + 1,
                                     success := success (status s) + 1\<rparr>
      | _ \<Rightarrow> (status s)\<lparr>progress := progress (status s) + 1,
                       errors := errors (status s) @ [dict_get c ''email'' (Str [])]\<rparr>)"
  by (simp add: iteration_def Let_def split: prod.splits outcome.splits bool.splits)

lemma iteration_world: "world (iteration send now c s) = snd (send c (world s))"
  by (simp add: iteration_def Let_def split: prod.splits outcome.splits bool.splits)

lemma iteration_active: "active (status (iteration send now c s)) = active (status s)"
  by (simp add: iteration_status split: outcome.splits bool.splits)

lemma iteration_total: "total (status (iteration send now c s)) = total (status s)"
  by (simp add: iteration_status split: outcome.splits bool.splits)

lemma iteration_progress:
  "progress (status (iteration send now c s)) = progress (status s) + 1"
  by (simp add: iteration_status split: outcome.splits bool.splits)

lemma iteration_counts:
  "success (status (iteration send now c s)) + length (errors (status (iteration send now c s)))
     = success (status s) + length (errors (status s)) + 1"
  by (simp add: iteration_status split: outcome.splits bool.splits)

lemma iteration_exactly_one:
  "(success (status (iteration send now c s)) = success (status s) + 1
      \<and> errors (status (iteration send now c s)) = errors (status s))
   \<or> (success (status (iteration send now c s)) = success (status s)
      \<and> errors (status (iteration send now c s))
          = errors (status s) @ [dict_get c ''email'' (Str [])])"
  by (simp add: iteration_status split: outcome.splits bool.splits)

lemma iteration_logs:
  "\<exists>entry. send_logs (iteration send now c s) = send_logs s @ [entry]
      \<and> log_email entry = dict_get c ''email'' (Str [])
      \<and> log_status entry =
          (case fst (send c (world s)) of
             Returned True \<Rightarrow> ''Succ'' @ [CHR 0xE8] @ ''s''
           | Returned False \<Rightarrow> [CHR 0xC9] @ ''chec''
           | Raised e \<Rightarrow> ''Erreur'')"
  by (simp add: iteration_def Let_def split: prod.splits outcome.splits bool.splits)

lemma run_sends_Cons:
  "fst (run_sends send (c # cs) w) = fst (send c w) # fst (run_sends send cs (snd (send c w)))"
  "snd (run_sends send (c # cs) w) = snd (run_sends send cs (snd (send c w)))"
  by (simp_all add: split_beta)

lemma run_sends_length: "length (fst (run_sends send cs w)) = length cs"
  by (induction cs arbitrary: w) (simp_all add: split_beta)

lemma send_loop_uncancelled:
  "\<forall>j. \<not> stop j \<Longrightarrow> active (status s) \<Longrightarrow>
     send_loop send now stop i cs s = foldl (\<lambda>s c. iteration send now c s) s cs"
proof (induction cs arbitrary: i s)
  case Nil
  show ?case by simp
next
  case (Cons c cs)
  have "active (status (iteration send now c s))"
    using Cons.prems(2) by (simp add: iteration_active)
  with Cons.prems(1) have ih: "send_loop send now stop (Suc i) cs (iteration send now c s)
      = foldl (\<lambda>s c. iteration send now c s) (iteration send now c s) cs"
    by (rule Cons.IH)
  have "\<not> stop i" using Cons.prems(1) by blast
  then show ?case using Cons.prems(2) ih by (simp add: Let_def)
qed

lemma fold_active:
  "active (status (foldl (\<lambda>s c. iteration send now c s) s cs)) = active (status s)"
  by (induction cs arbitrary: s) (simp_all add: iteration_active)

lemma fold_total:
  "total (status (foldl (\<lambda>s c. iteration send now c s) s cs)) = total (status s)"
  by (induction cs arbitrary: s) (simp_all add: iteration_total)

lemma fold_progress:
  "progress (status (foldl (\<lambda>s c. iteration send now c s) s cs))
     = progress (status s) + length cs"
  by (induction cs arbitrary: s) (simp_all add: iteration_progress)

lemma fold_world:
  "world (foldl (\<lambda>s c. iteration send now c s) s cs) = snd (run_sends send cs (world s))"
  by (induction cs arbitrary: s) (simp_all add: iteration_world split_beta)

lemma fold_success:
  "success (status (foldl (\<lambda>s c. iteration send now c s) s cs))
     = success (status s)
       + length (filter (\<lambda>r. r = Returned True) (fst (run_sends send cs (world s))))"
proof (induction cs arbitrary: s)
  case Nil
  show ?case by simp
next
  case (Cons c cs)
  have "success (status (iteration send now c s))
        = success (status s) + (if fst (send c (world s)) = Returned True then 1 else 0)"
    by (simp add: iteration_status split: outcome.splits bool.splits)
  then show ?case
    using Cons.IH [of "iteration send now c s"]
    by (simp add: iteration_world run_sends_Cons del: run_sends.simps)
qed

lemma fold_errors:
  "errors (status (foldl (\<lambda>s c. iteration send now c s) s cs))
     = errors (status s)
       @ map (\<lambda>(c, r). dict_get c ''email'' (Str []))
           (filter (\<lambda>(c, r). r \<noteq> Returned True)
              (zip cs (fst (run_sends send cs (world s)))))"
proof (induction cs arbitrary: s)
  case Nil
  show ?case by simp
next
  case (Cons c cs)
  have "errors (status (iteration send now c s))
        = errors (status s) @ (if fst (send c (world s)) = Returned True then []
                               else [dict_get c ''email'' (Str [])])"
    by (simp add: iteration_status split: outcome.splits bool.splits)
  then show ?case
    using Cons.IH [of "iteration send now c s"]
    by (simp add: iteration_world run_sends_Cons del: run_sends.simps)
qed

lemma fold_logs:
  "\<exists>new. send_logs (foldl (\<lambda>s c. iteration send now c s) s cs) = send_logs s @ new
      \<and> map log_email new = map (\<lambda>c. dict_get c ''email'' (Str [])) cs
      \<and> map log_status new = map (\<lambda>r. case r of Returned True \<Rightarrow> ''Succ'' @ [CHR 0xE8] @ ''s''
                  | Returned False \<Rightarrow> [CHR 0xC9] @ ''chec'' | Raised e \<Rightarrow> ''Erreur'')
              (fst (run_sends send cs (world s)))"
proof (induction cs arbitrary: s)
  case Nil
  show ?case by simp
next
  case (Cons c cs)
  obtain entry where e: "send_logs (iteration send now c s) = send_logs s @ [entry]"
      "log_email entry = dict_get c ''email'' (Str [])"
      "log_status entry = (case fst (send c (world s)) of
           Returned True \<Rightarrow> ''Succ'' @ [CHR 0xE8] @ ''s''
         | Returned False \<Rightarrow> [CHR 0xC9] @ ''chec'' | Raised e \<Rightarrow> ''Erreur'')"
    using iteration_logs [of send now c s] by blast
  obtain new where n:
      "send_logs (foldl (\<lambda>s c. iteration send now c s) (iteration send now c s) cs)
         = send_logs (iteration send now c s) @ new"
      "map log_email new = map (\<lambda>c. dict_get c ''email'' (Str [])) cs"
      "map log_status new
         = map (\<lambda>r. case r of Returned True \<Rightarrow> ''Succ'' @ [CHR 0xE8] @ ''s''
                  | Returned False \<Rightarrow> [CHR 0xC9] @ ''chec'' | Raised e \<Rightarrow> ''Erreur'')
              (fst (run_sends send cs (world (iteration send now c s))))"
    using Cons.IH [of "iteration send now c s"] by blast
  have "send_logs (foldl (\<lambda>s c. iteration send now c s) s (c # cs)) = send_logs s @ (entry # new)"
    using e(1) n(1) by simp
  moreover have "map log_email (entry # new) = map (\<lambda>c. dict_get c ''email'' (Str [])) (c # cs)"
    using e(2) n(2) by simp
  moreover have "map log_status (entry # new)
      = map (\<lambda>r. case r of Returned True \<Rightarrow> ''Succ'' @ [CHR 0xE8] @ ''s''
                  | Returned False \<Rightarrow> [CHR 0xC9] @ ''chec'' | Raised e \<Rightarrow> ''Erreur'')
              (fst (run_sends send (c # cs) (world s)))"
    using e(3) n(3) by (simp add: run_sends_Cons iteration_world del: run_sends.simps)
  ultimately show ?case by blast
qed

lemma send_loop_append:
  "send_loop send now stop i (xs @ ys) s
     = send_loop send now stop (i + length xs) ys (send_loop send now stop i xs s)"
proof (induction xs arbitrary: i s)
  case Nil
  show ?case by simp
next
  case (Cons c xs)
  let ?s1 = "if stop i then s\<lparr>status := (status s)\<lparr>active := False\<rparr>\<rparr> else s"
  show ?case
  proof (cases "active (status ?s1)")
    case False
    then have "send_loop send now stop i ((c # xs) @ ys) s = ?s1"
      and "send_loop send now stop i (c # xs) s = ?s1"
      by (simp_all add: Let_def)
    moreover have "send_loop send now stop (i + length (c # xs)) ys ?s1 = ?s1"
      using False by (rule send_loop_inactive)
    ultimately show ?thesis by simp
  next
    case True
    then have "send_loop send now stop i ((c # xs) @ ys) s
               = send_loop send now stop (Suc i) (xs @ ys) (iteration send now c ?s1)"
      and "send_loop send now stop i (c # xs) s
               = send_loop send now stop (Suc i) xs (iteration send now c ?s1)"
      by (simp_all add: Let_def)
    then show ?thesis using Cons.IH [of "Suc i" "iteration send now c ?s1"] by simp
  qed
qed

lemma send_loop_counts:
  "success (status s) + length (errors (status s)) = progress (status s) \<Longrightarrow>
     success (status (send_loop send now stop i xs s))
       + length (errors (status (send_loop send now stop i xs s)))
     = progress (status (send_loop send now stop i xs s))"
proof (induction xs arbitrary: i s)
  case Nil
  then show ?case by simp
next
  case (Cons c xs)
  let ?s1 = "if stop i then s\<lparr>status := (status s)\<lparr>active := False\<rparr>\<rparr> else s"
  have s1: "success (status ?s1) + length (errors (status ?s1)) = progress (status ?s1)"
    using Cons.prems by simp
  show ?case
  proof (cases "active (status ?s1)")
    case False
    then have "send_loop send now stop i (c # xs) s = ?s1" by (simp add: Let_def)
    with s1 show ?thesis by simp
  next
    case True
    then have eq: "send_loop send now stop i (c # xs) s
               = send_loop send now stop (Suc i) xs (iteration send now c ?s1)"
      by (simp add: Let_def)
    have "success (status (iteration send now c ?s1))
            + length (errors (status (iteration send now c ?s1)))
          = progress (status (iteration send now c ?s1))"
      using s1 by (simp only: iteration_counts iteration_progress)
    then show ?thesis unfolding eq by (rule Cons.IH)
  qed
qed

lemma send_loop_progress_le:
  "progress (status (send_loop send now stop i xs s)) \<le> progress (status s) + length xs"
proof (induction xs arbitrary: i s)
  case Nil
  show ?case by simp
next
  case (Cons c xs)
  let ?s1 = "if stop i then s\<lparr>status := (status s)\<lparr>active := False\<rparr>\<rparr> else s"
  have p1: "progress (status ?s1) = progress (status s)" by simp
  show ?case
  proof (cases "active (status ?s1)")
    case False
    then have "send_loop send now stop i (c # xs) s = ?s1" by (simp add: Let_def)
    with p1 show ?thesis by simp
  next
    case True
    then have eq: "send_loop send now stop i (c # xs) s
               = send_loop send now stop (Suc i) xs (iteration send now c ?s1)"
      by (simp add: Let_def)
    have "progress (status (send_loop send now stop (Suc i) xs (iteration send now c ?s1)))
          \<le> progress (status (iteration send now c ?s1)) + length xs"
      by (rule Cons.IH)
    also have "\<dots> = progress (status s) + length (c # xs)"
      by (simp only: iteration_progress p1) simp
    finally show ?thesis unfolding eq .
  qed
qed

lemma send_loop_total:
  "total (status (send_loop send now stop i xs s)) = total (status s)"
proof (induction xs arbitrary: i s)
  case Nil
  show ?case by simp
next
  case (Cons c xs)
  let ?s1 = "if stop i then s\<lparr>status := (status s)\<lparr>active := False\<rparr>\<rparr> else s"
  have t1: "total (status ?s1) = total (status s)" by simp
  show ?case
  proof (cases "active (status ?s1)")
    case False
    then have "send_loop send now stop i (c # xs) s = ?s1" by (simp add: Let_def)
    with t1 show ?thesis by simp
  next
    case True
    then have eq: "send_loop send now stop i (c # xs) s
               = send_loop send now stop (Suc i) xs (iteration send now c ?s1)"
      by (simp add: Let_def)
    show ?thesis unfolding eq using Cons.IH [of "Suc i" "iteration send now c ?s1"]
      by (simp only: iteration_total t1)
  qed
qed

lemma bulk_send_uncancelled_eq:
  "\<forall>i. \<not> stop i \<Longrightarrow>
     bulk_send send now stop contacts s
       = (foldl (\<lambda>s c. iteration send now c s) (s\<lparr>status := initial_status (length contacts)\<rparr>)
            contacts)
         \<lparr>status := (status (foldl (\<lambda>s c. iteration send now c s)
                        (s\<lparr>status := initial_status (length contacts)\<rparr>) contacts))
                     \<lparr>active := False\<rparr>\<rparr>"
proof -
  assume ns: "\<forall>i. \<not> stop i"
  have "active (status (s\<lparr>status := initial_status (length contacts)\<rparr>))"
    by (simp add: initial_status_def)
  with ns have "send_loop send now stop 0 contacts (s\<lparr>status := initial_status (length contacts)\<rparr>)
      = foldl (\<lambda>s c. iteration send now c s) (s\<lparr>status := initial_status (length contacts)\<rparr>)
            contacts"
    by (rule send_loop_uncancelled)
  then show ?thesis by (simp add: bulk_send_def Let_def)
qed

text \<open>
  Claim C7, with the log as the run leaves it. When the run is not cancelled, the final
  status has \<open>active = False\<close>, \<open>progress\<close> and \<open>total\<close> equal to the number \<open>N\<close> of
  records, \<open>success\<close> the number of sends that returned \<open>True\<close>, and \<open>errors\<close> the emails
  of the other records in their order (a send that returned \<open>False\<close> or raised). The run
  starts a new status but not a new log: it appends \<open>N\<close> entries, one per record in the
  order of the records and each with the status of its outcome, after the entries the log
  held before, so the log has exactly \<open>N\<close> entries when it was empty at the start. The
  sender was called for every record, in order.
\<close>

theorem bulk_send_uncancelled:
  "(\<forall>i. \<not> stop i) \<longrightarrow>
     status (bulk_send send now stop contacts s)
       = \<lparr>active = False, progress = length contacts, total = length contacts,
          success = length (filter (\<lambda>r. r = Returned True)
                      (fst (run_sends send contacts (world s)))),
          errors = map (\<lambda>(c, r). dict_get c ''email'' (Str []))
                     (filter (\<lambda>(c, r). r \<noteq> Returned True)
                        (zip contacts (fst (run_sends send contacts (world s)))))\<rparr>
     \<and> length (send_logs (bulk_send send now stop contacts s))
         = length (send_logs s) + length contacts
     \<and> take (length (send_logs s)) (send_logs (bulk_send send now stop contacts s))
         = send_logs s
     \<and> map log_email (drop (length (send_logs s))
                        (send_logs (bulk_send send now stop contacts s)))
         = map (\<lambda>c. dict_get c ''email'' (Str [])) contacts
     \<and> map log_status (drop (length (send_logs s))
                         (send_logs (bulk_send send now stop contacts s)))
         = map (\<lambda>r. case r of Returned True \<Rightarrow> ''Succ'' @ [CHR 0xE8] @ ''s''
                  | Returned False \<Rightarrow> [CHR 0xC9] @ ''chec'' | Raised e \<Rightarrow> ''Erreur'')
              (fst (run_sends send contacts (world s)))
     \<and> world (bulk_send send now stop contacts s) = snd (run_sends send contacts (world s))"
proof
  assume ns: "\<forall>i. \<not> stop i"
  let ?s0 = "s\<lparr>status := initial_status (length contacts)\<rparr>"
  let ?f = "foldl (\<lambda>s c. iteration send now c s) ?s0 contacts"
  let ?b = "bulk_send send now stop contacts s"
  have b: "?b = ?f\<lparr>status := (status ?f)\<lparr>active := False\<rparr>\<rparr>"
    using ns by (rule bulk_send_uncancelled_eq)
  have w0: "world ?s0 = world s" and l0: "send_logs ?s0 = send_logs s" by simp_all
  have st: "status ?b = (status ?f)\<lparr>active := False\<rparr>" by (simp add: b)
  have p: "progress (status ?f) = length contacts"
    by (simp add: fold_progress initial_status_def)
  have t: "total (status ?f) = length contacts"
    by (simp add: fold_total initial_status_def)
  have su: "success (status ?f) = length (filter (\<lambda>r. r = Returned True)
                      (fst (run_sends send contacts (world s))))"
    using fold_success [of send now ?s0 contacts] by (simp add: initial_status_def)
  have er: "errors (status ?f) = map (\<lambda>(c, r). dict_get c ''email'' (Str []))
                     (filter (\<lambda>(c, r). r \<noteq> Returned True)
                        (zip contacts (fst (run_sends send contacts (world s)))))"
    using fold_errors [of send now ?s0 contacts] by (simp add: initial_status_def)
  have 1: "status ?b = \<lparr>active = False, progress = length contacts, total = length contacts,
          success = length (filter (\<lambda>r. r = Returned True)
                      (fst (run_sends send contacts (world s)))),
          errors = map (\<lambda>(c, r). dict_get c ''email'' (Str []))
                     (filter (\<lambda>(c, r). r \<noteq> Returned True)
                        (zip contacts (fst (run_sends send contacts (world s)))))\<rparr>"
    unfolding st using p t su er by (cases "status ?f") simp
  obtain new where new: "send_logs ?f = send_logs s @ new"
      "map log_email new = map (\<lambda>c. dict_get c ''email'' (Str [])) contacts"
      "map log_status new = map (\<lambda>r. case r of Returned True \<Rightarrow> ''Succ'' @ [CHR 0xE8] @ ''s''
                  | Returned False \<Rightarrow> [CHR 0xC9] @ ''chec'' | Raised e \<Rightarrow> ''Erreur'')
              (fst (run_sends send contacts (world s)))"
    using fold_logs [of send now ?s0 contacts] unfolding w0 l0 by blast
  have lb: "send_logs ?b = send_logs s @ new" by (simp add: b new(1))
  have ln: "length new = length contacts"
    using new(2) by (metis length_map)
  have 2: "length (send_logs ?b) = length (send_logs s) + length contacts"
    by (simp add: lb ln)
  have 3: "take (length (send_logs s)) (send_logs ?b) = send_logs s" by (simp add: lb)
  have 4: "map log_email (drop (length (send_logs s)) (send_logs ?b))
         = map (\<lambda>c. dict_get c ''email'' (Str [])) contacts"
    by (simp add: lb new(2))
  have 5: "map log_status (drop (length (send_logs s)) (send_logs ?b))
         = map (\<lambda>r. case r of Returned True \<Rightarrow> ''Succ'' @ [CHR 0xE8] @ ''s''
                  | Returned False \<Rightarrow> [CHR 0xC9] @ ''chec'' | Raised e \<Rightarrow> ''Erreur'')
              (fst (run_sends send contacts (world s)))"
    by (simp add: lb new(3))
  have 6: "world ?b = snd (run_sends send contacts (world s))"
    by (simp add: b fold_world)
  from 1 2 3 4 5 6 show "status ?b
       = \<lparr>active = False, progress = length contacts, total = length contacts,
          success = length (filter (\<lambda>r. r = Returned True)
                      (fst (run_sends send contacts (world s)))),
          errors = map (\<lambda>(c, r). dict_get c ''email'' (Str []))
                     (filter (\<lambda>(c, r). r \<noteq> Returned True)
                        (zip contacts (fst (run_sends send contacts (world s)))))\<rparr>
     \<and> length (send_logs ?b) = length (send_logs s) + length contacts
     \<and> take (length (send_logs s)) (send_logs ?b) = send_logs s
     \<and> map log_email (drop (length (send_logs s)) (send_logs ?b))
         = map (\<lambda>c. dict_get c ''email'' (Str [])) contacts
     \<and> map log_status (drop (length (send_logs s)) (send_logs ?b))
         = map (\<lambda>r. case r of Returned True \<Rightarrow> ''Succ'' @ [CHR 0xE8] @ ''s''
                  | Returned False \<Rightarrow> [CHR 0xC9] @ ''chec'' | Raised e \<Rightarrow> ''Erreur'')
              (fst (run_sends send contacts (world s)))
     \<and> world ?b = snd (run_sends send contacts (world s))"
    by (intro conjI)
qed

theorem bulk_send_uncancelled_witness:
  "status (bulk_send
      (\<lambda>c w. (Returned (dict_get c ''email'' (Str []) \<noteq> Str ''b@y.org''), w @ [c]))
      (\<lambda>w. ''12:00:00'') (\<lambda>i. False)
      [[(''email'', Str ''a@x.com'')], [(''email'', Str ''b@y.org'')], [(''email'', Str ''c@z.net'')]]
      \<lparr>status = \<lparr>active = False, progress = 0, total = 0, success = 0, errors = []\<rparr>,
       send_logs = [], world = []\<rparr>)
     = \<lparr>active = False, progress = 3, total = 3, success = 2, errors = [Str ''b@y.org'']\<rparr>
   \<and> map log_email (send_logs (bulk_send
      (\<lambda>c w. (Returned (dict_get c ''email'' (Str []) \<noteq> Str ''b@y.org''), w @ [c]))
      (\<lambda>w. ''12:00:00'') (\<lambda>i. False)
      [[(''email'', Str ''a@x.com'')], [(''email'', Str ''b@y.org'')], [(''email'', Str ''c@z.net'')]]
      \<lparr>status = \<lparr>active = False, progress = 0, total = 0, success = 0, errors = []\<rparr>,
       send_logs = [], world = []\<rparr>))
     = [Str ''a@x.com'', Str ''b@y.org'', Str ''c@z.net'']"
  using bulk_send_uncancelled [where stop = "\<lambda>i. False"
      and send = "\<lambda>c w. (Returned (dict_get c ''email'' (Str []) \<noteq> Str ''b@y.org''), w @ [c])"
      and now = "\<lambda>w. ''12:00:00''"
      and contacts = "[[(''email'', Str ''a@x.com'')], [(''email'', Str ''b@y.org'')],
                       [(''email'', Str ''c@z.net'')]]"
      and s = "\<lparr>status = \<lparr>active = False, progress = 0, total = 0, success = 0, errors = []\<rparr>,
               send_logs = [], world = []\<rparr>"]
  by (simp add: dict_get_def)

text \<open>
  Claim C7 as stated fails for the log of a second run: lines 623-629 start a new status,
  and nothing empties \<open>send_logs\<close> but the button of lines 781-782. After a run over one
  record and a second run over one record, the status counts one record and the log
  holds two entries.
\<close>

theorem bulk_send_log_kept_counterexample:
  "status (bulk_send (\<lambda>c w. (Returned True, w)) (\<lambda>w. ''12:00:00'') (\<lambda>i. False)
      [[(''email'', Str ''b@y.org'')]]
      (bulk_send (\<lambda>c w. (Returned True, w)) (\<lambda>w. ''12:00:00'') (\<lambda>i. False)
         [[(''email'', Str ''a@x.com'')]]
         \<lparr>status = \<lparr>active = False, progress = 0, total = 0, success = 0, errors = []\<rparr>,
          send_logs = [], world = ()\<rparr>))
     = \<lparr>active = False, progress = 1, total = 1, success = 1, errors = []\<rparr>
   \<and> map log_email (send_logs
     (bulk_send (\<lambda>c w. (Returned True, w)) (\<lambda>w. ''12:00:00'') (\<lambda>i. False)
      [[(''email'', Str ''b@y.org'')]]
      (bulk_send (\<lambda>c w. (Returned True, w)) (\<lambda>w. ''12:00:00'') (\<lambda>i. False)
         [[(''email'', Str ''a@x.com'')]]
         \<lparr>status = \<lparr>active = False, progress = 0, total = 0, success = 0, errors = []\<rparr>,
          send_logs = [], world = ()\<rparr>)))
     = [Str ''a@x.com'', Str ''b@y.org'']"
  by (simp add: bulk_send_def initial_status_def iteration_def dict_get_def Let_def)

lemma send_loop_cancelled:
  "active (status s) \<Longrightarrow> k < length cs \<Longrightarrow> stop (i + k) \<Longrightarrow> \<forall>j<k. \<not> stop (i + j) \<Longrightarrow>
     send_loop send now stop i cs s
       = (foldl (\<lambda>s c. iteration send now c s) s (take k cs))
         \<lparr>status := (status (foldl (\<lambda>s c. iteration send now c s) s (take k cs)))
                     \<lparr>active := False\<rparr>\<rparr>"
proof (induction k arbitrary: i cs s)
  case 0
  then obtain c rest where cs: "cs = c # rest" by (cases cs) auto
  from 0 have "stop i" by simp
  then show ?case by (simp add: cs Let_def)
next
  case (Suc k)
  then obtain c rest where cs: "cs = c # rest" by (cases cs) auto
  have ns: "\<not> stop i" using Suc.prems(4) by force
  have a: "active (status (iteration send now c s))"
    using Suc.prems(1) by (simp add: iteration_active)
  have k: "k < length rest" using Suc.prems(2) cs by simp
  have st: "stop (Suc i + k)" using Suc.prems(3) by simp
  have nst: "\<forall>j<k. \<not> stop (Suc i + j)"
  proof (intro allI impI)
    fix j assume "j < k"
    then have "Suc j < Suc k" by simp
    then have "\<not> stop (i + Suc j)" using Suc.prems(4) by blast
    then show "\<not> stop (Suc i + j)" by simp
  qed
  have "send_loop send now stop (Suc i) rest (iteration send now c s)
       = (foldl (\<lambda>s c. iteration send now c s) (iteration send now c s) (take k rest))
         \<lparr>status := (status (foldl (\<lambda>s c. iteration send now c s)
                                (iteration send now c s) (take k rest)))
                     \<lparr>active := False\<rparr>\<rparr>"
    using a k st nst by (rule Suc.IH)
  then show ?case using ns Suc.prems(1) by (simp add: cs Let_def)
qed

lemma iteration_total_update:
  "iteration send now c (s\<lparr>status := (status s)\<lparr>total := n\<rparr>\<rparr>)
     = (iteration send now c s)\<lparr>status := (status (iteration send now c s))\<lparr>total := n\<rparr>\<rparr>"
  by (simp add: iteration_def Let_def split: prod.splits outcome.splits bool.splits)

lemma fold_total_update:
  "foldl (\<lambda>s c. iteration send now c s) (s\<lparr>status := (status s)\<lparr>total := n\<rparr>\<rparr>) cs
     = (foldl (\<lambda>s c. iteration send now c s) s cs)
       \<lparr>status := (status (foldl (\<lambda>s c. iteration send now c s) s cs))\<lparr>total := n\<rparr>\<rparr>"
proof (induction cs arbitrary: s)
  case Nil
  show ?case by simp
next
  case (Cons c cs)
  show ?case
    using Cons.IH [of "iteration send now c s"] by (simp add: iteration_total_update)
qed

text \<open>
  Claim C8. When \<open>active\<close> is cleared after \<open>k\<close> records were processed and before record
  \<open>k + 1\<close> is examined, the run ends in the state of an uncancelled run over the first
  \<open>k\<close> records, but for \<open>total\<close>, which stays the number of all records: \<open>progress\<close>
  is \<open>k\<close>, \<open>k\<close> entries were logged, and the sender was called for the first \<open>k\<close>
  records only. The flag is read at the top of an iteration and nowhere else, so a send
  that has begun runs to its end.
\<close>

theorem bulk_send_cancelled:
  "k < length contacts \<and> stop k \<and> (\<forall>j<k. \<not> stop j) \<longrightarrow>
     bulk_send send now stop contacts s
       = (bulk_send send now (\<lambda>i. False) (take k contacts) s)
         \<lparr>status := (status (bulk_send send now (\<lambda>i. False) (take k contacts) s))
                     \<lparr>total := length contacts\<rparr>\<rparr>
     \<and> progress (status (bulk_send send now stop contacts s)) = k
     \<and> total (status (bulk_send send now stop contacts s)) = length contacts
     \<and> \<not> active (status (bulk_send send now stop contacts s))
     \<and> world (bulk_send send now stop contacts s)
         = snd (run_sends send (take k contacts) (world s))
     \<and> length (send_logs (bulk_send send now stop contacts s)) = length (send_logs s) + k"
proof
  assume h: "k < length contacts \<and> stop k \<and> (\<forall>j<k. \<not> stop j)"
  let ?N = "length contacts"
  let ?s0 = "s\<lparr>status := initial_status ?N\<rparr>"
  let ?t0 = "s\<lparr>status := initial_status (length (take k contacts))\<rparr>"
  let ?F = "\<lambda>s c. iteration send now c s"
  let ?f1 = "foldl ?F ?s0 (take k contacts)"
  let ?f2 = "foldl ?F ?t0 (take k contacts)"
  let ?b = "bulk_send send now stop contacts s"
  let ?g = "bulk_send send now (\<lambda>i. False) (take k contacts) s"
  have a0: "active (status ?s0)" by (simp add: initial_status_def)
  have k: "k < length contacts" and st: "stop (0 + k)" and nst: "\<forall>j<k. \<not> stop (0 + j)"
    using h by simp_all
  have loop: "send_loop send now stop 0 contacts ?s0
              = ?f1\<lparr>status := (status ?f1)\<lparr>active := False\<rparr>\<rparr>"
    using a0 k st nst by (rule send_loop_cancelled)
  have b: "?b = ?f1\<lparr>status := (status ?f1)\<lparr>active := False\<rparr>\<rparr>"
    unfolding bulk_send_def Let_def loop by simp
  have g: "?g = ?f2\<lparr>status := (status ?f2)\<lparr>active := False\<rparr>\<rparr>"
    by (rule bulk_send_uncancelled_eq) simp
  have "?s0 = ?t0\<lparr>status := (status ?t0)\<lparr>total := ?N\<rparr>\<rparr>"
    by (simp add: initial_status_def)
  then have "?f1 = foldl ?F (?t0\<lparr>status := (status ?t0)\<lparr>total := ?N\<rparr>\<rparr>) (take k contacts)"
    by simp
  then have f12: "?f1 = ?f2\<lparr>status := (status ?f2)\<lparr>total := ?N\<rparr>\<rparr>"
    by (simp only: fold_total_update)
  have 1: "?b = ?g\<lparr>status := (status ?g)\<lparr>total := ?N\<rparr>\<rparr>"
    unfolding b g by (subst f12, subst f12) simp
  have lk: "length (take k contacts) = k" using k by simp
  have 2: "progress (status ?b) = k"
    unfolding b using k by (simp add: fold_progress initial_status_def)
  have 3: "total (status ?b) = ?N"
    unfolding b by (simp add: fold_total initial_status_def)
  have 4: "\<not> active (status ?b)" unfolding b by simp
  have 5: "world ?b = snd (run_sends send (take k contacts) (world s))"
    unfolding b by (simp add: fold_world)
  obtain new where new: "send_logs ?f1 = send_logs ?s0 @ new"
      "map log_email new = map (\<lambda>c. dict_get c ''email'' (Str [])) (take k contacts)"
    using fold_logs [of send now ?s0 "take k contacts"] by blast
  have "length new = k" using new(2) lk by (metis length_map)
  then have 6: "length (send_logs ?b) = length (send_logs s) + k"
    unfolding b using new(1) by simp
  from 1 2 3 4 5 6 show "?b = ?g\<lparr>status := (status ?g)\<lparr>total := ?N\<rparr>\<rparr>
     \<and> progress (status ?b) = k
     \<and> total (status ?b) = ?N
     \<and> \<not> active (status ?b)
     \<and> world ?b = snd (run_sends send (take k contacts) (world s))
     \<and> length (send_logs ?b) = length (send_logs s) + k"
    by (intro conjI)
qed

theorem bulk_send_cancelled_witness:
  "progress (status (bulk_send
      (\<lambda>c w. (Returned (dict_get c ''email'' (Str []) \<noteq> Str ''b@y.org''), w @ [c]))
      (\<lambda>w. ''12:00:00'') (\<lambda>i. i = 2)
      [[(''email'', Str ''a@x.com'')], [(''email'', Str ''b@y.org'')], [(''email'', Str ''c@z.net'')]]
      \<lparr>status = \<lparr>active = False, progress = 0, total = 0, success = 0, errors = []\<rparr>,
       send_logs = [], world = []\<rparr>)) = 2
   \<and> total (status (bulk_send
      (\<lambda>c w. (Returned (dict_get c ''email'' (Str []) \<noteq> Str ''b@y.org''), w @ [c]))
      (\<lambda>w. ''12:00:00'') (\<lambda>i. i = 2)
      [[(''email'', Str ''a@x.com'')], [(''email'', Str ''b@y.org'')], [(''email'', Str ''c@z.net'')]]
      \<lparr>status = \<lparr>active = False, progress = 0, total = 0, success = 0, errors = []\<rparr>,
       send_logs = [], world = []\<rparr>)) = 3
   \<and> world (bulk_send
      (\<lambda>c w. (Returned (dict_get c ''email'' (Str []) \<noteq> Str ''b@y.org''), w @ [c]))
      (\<lambda>w. ''12:00:00'') (\<lambda>i. i = 2)
      [[(''email'', Str ''a@x.com'')], [(''email'', Str ''b@y.org'')], [(''email'', Str ''c@z.net'')]]
      \<lparr>status = \<lparr>active = False, progress = 0, total = 0, success = 0, errors = []\<rparr>,
       send_logs = [], world = []\<rparr>)
     = [[(''email'', Str ''a@x.com'')], [(''email'', Str ''b@y.org'')]]"
proof -
  let ?cs = "[[(''email'', Str ''a@x.com'')], [(''email'', Str ''b@y.org'')],
              [(''email'', Str ''c@z.net'')]]"
  have pre: "2 < length ?cs \<and> (2::nat) = 2 \<and> (\<forall>j<2. \<not> j = (2::nat))" by simp
  note t = bulk_send_cancelled [where k = 2 and stop = "\<lambda>i. i = 2"
      and send = "\<lambda>c w. (Returned (dict_get c ''email'' (Str []) \<noteq> Str ''b@y.org''), w @ [c])"
      and now = "\<lambda>w. ''12:00:00''" and contacts = ?cs
      and s = "\<lparr>status = \<lparr>active = False, progress = 0, total = 0, success = 0, errors = []\<rparr>,
               send_logs = [], world = []\<rparr>", THEN mp, OF pre]
  note p = t [THEN conjunct2, THEN conjunct1]
  note n = t [THEN conjunct2, THEN conjunct2, THEN conjunct1]
  note w = t [THEN conjunct2, THEN conjunct2, THEN conjunct2, THEN conjunct2, THEN conjunct1]
  from p n w show ?thesis by (simp add: dict_get_def)
qed

text \<open>
  Claim C10. The status is consistent (\<open>success + length errors = progress\<close> and
  \<open>progress \<le> total\<close>) at the top of every iteration and at the end of the run: the run
  passes through the state reached after the first \<open>k\<close> records, for every \<open>k\<close>, and
  that state is consistent, as is the final one. One iteration adds one to \<open>progress\<close>
  and either adds one to \<open>success\<close> or appends the email to \<open>errors\<close>, also when the
  send raises.
\<close>

theorem status_invariant:
  "consistent (status (send_loop send now stop 0 (take k contacts)
                 (s\<lparr>status := initial_status (length contacts)\<rparr>)))
   \<and> send_loop send now stop 0 contacts s'
     = send_loop send now stop (length (take k contacts)) (drop k contacts)
         (send_loop send now stop 0 (take k contacts) s')
   \<and> consistent (status (bulk_send send now stop contacts s))
   \<and> progress (status (iteration send now c s)) = progress (status s) + 1
   \<and> ((success (status (iteration send now c s)) = success (status s) + 1
         \<and> errors (status (iteration send now c s)) = errors (status s))
      \<or> (success (status (iteration send now c s)) = success (status s)
         \<and> errors (status (iteration send now c s))
             = errors (status s) @ [dict_get c ''email'' (Str [])]))"
proof -
  let ?s0 = "s\<lparr>status := initial_status (length contacts)\<rparr>"
  have init: "success (status ?s0) + length (errors (status ?s0)) = progress (status ?s0)"
    by (simp add: initial_status_def)
  have p0: "progress (status ?s0) = 0" and t0: "total (status ?s0) = length contacts"
    by (simp_all add: initial_status_def)
  have 1: "consistent (status (send_loop send now stop 0 xs ?s0))"
    if "length xs \<le> length contacts" for xs
  proof -
    have "progress (status (send_loop send now stop 0 xs ?s0))
          \<le> progress (status ?s0) + length xs"
      by (rule send_loop_progress_le)
    then have "progress (status (send_loop send now stop 0 xs ?s0))
          \<le> total (status (send_loop send now stop 0 xs ?s0))"
      using that by (simp add: send_loop_total initial_status_def)
    then show ?thesis
      using send_loop_counts [OF init, of send now stop 0 xs]
      by (simp add: consistent_def)
  qed
  have 2: "consistent (status (send_loop send now stop 0 (take k contacts) ?s0))"
    by (rule 1) simp
  have 3: "send_loop send now stop 0 contacts s'
     = send_loop send now stop (length (take k contacts)) (drop k contacts)
         (send_loop send now stop 0 (take k contacts) s')"
    using send_loop_append [of send now stop 0 "take k contacts" "drop k contacts" s']
    by simp
  have "consistent (status (send_loop send now stop 0 contacts ?s0))"
    by (rule 1) simp
  then have 4: "consistent (status (bulk_send send now stop contacts s))"
    by (simp add: bulk_send_def Let_def consistent_def)
  have 5: "progress (status (iteration send now c s)) = progress (status s) + 1"
    by (rule iteration_progress)
  note 6 = iteration_exactly_one [of send now c s]
  from 2 3 4 5 6 show ?thesis by (intro conjI)
qed

theorem status_invariant_witness:
  "consistent (status (bulk_send
      (\<lambda>c w. (if dict_get c ''email'' (Str []) = Str ''b@y.org'' then Raised ''timeout''
                else Returned True, w @ [c]))
      (\<lambda>w. ''12:00:00'') (\<lambda>i. False)
      [[(''email'', Str ''a@x.com'')], [(''email'', Str ''b@y.org'')]]
      \<lparr>status = \<lparr>active = False, progress = 0, total = 0, success = 0, errors = []\<rparr>,
       send_logs = [], world = []\<rparr>))
   \<and> status (bulk_send
      (\<lambda>c w. (if dict_get c ''email'' (Str []) = Str ''b@y.org'' then Raised ''timeout''
                else Returned True, w @ [c]))
      (\<lambda>w. ''12:00:00'') (\<lambda>i. False)
      [[(''email'', Str ''a@x.com'')], [(''email'', Str ''b@y.org'')]]
      \<lparr>status = \<lparr>active = False, progress = 0, total = 0, success = 0, errors = []\<rparr>,
       send_logs = [], world = []\<rparr>)
     = \<lparr>active = False, progress = 2, total = 2, success = 1, errors = [Str ''b@y.org'']\<rparr>"
proof
  let ?send = "\<lambda>c w. (if dict_get c ''email'' (Str []) = Str ''b@y.org'' then Raised ''timeout''
                else Returned True, w @ [c])"
  let ?cs = "[[(''email'', Str ''a@x.com'')], [(''email'', Str ''b@y.org'')]]"
  let ?s = "\<lparr>status = \<lparr>active = False, progress = 0, total = 0, success = 0, errors = []\<rparr>,
             send_logs = [], world = []\<rparr>"
  note t = status_invariant [where stop = "\<lambda>i. False" and send = ?send
      and now = "\<lambda>w. ''12:00:00''" and contacts = ?cs and s = ?s and k = 1 and s' = ?s
      and c = "[(''email'', Str ''a@x.com'')]"]
  show "consistent (status (bulk_send ?send (\<lambda>w. ''12:00:00'') (\<lambda>i. False) ?cs ?s))"
    by (rule t [THEN conjunct2, THEN conjunct2, THEN conjunct1])
  show "status (bulk_send ?send (\<lambda>w. ''12:00:00'') (\<lambda>i. False) ?cs ?s)
     = \<lparr>active = False, progress = 2, total = 2, success = 1, errors = [Str ''b@y.org'']\<rparr>"
    by (simp add: dict_get_def bulk_send_def initial_status_def iteration_def Let_def)
qed

section \<open>Properties of the log export\<close>

lemma scan_unquoted:
  "\<forall>c \<in> set cs. c \<noteq> CHR '','' \<and> c \<noteq> CHR 0x0A \<Longrightarrow>
     scan Unquoted f r (cs @ rest) = scan Unquoted (f @ cs) r rest"
  by (induction cs arbitrary: f) simp_all

lemma scan_quoted:
  "scan Quoted f r (concat (map (\<lambda>c. if c = CHR 0x22 then [c, c] else [c]) x) @ rest)
     = scan Quoted (f @ x) r rest"
  by (induction x arbitrary: f) simp_all

lemma scan_field_comma:
  "scan FieldStart [] r (csv_field x @ CHR '','' # rest) = scan FieldStart [] (r @ [x]) rest"
proof (cases "needs_quote x")
  case True
  then show ?thesis by (simp add: csv_field_def scan_quoted)
next
  case False
  show ?thesis
  proof (cases x)
    case Nil
    then show ?thesis using False by (simp add: csv_field_def)
  next
    case (Cons c cs)
    have c: "c \<noteq> CHR 0x22" "c \<noteq> CHR '',''" "c \<noteq> CHR 0x0A"
      using False Cons by (auto simp: needs_quote_def)
    have cs: "\<forall>c \<in> set cs. c \<noteq> CHR '','' \<and> c \<noteq> CHR 0x0A"
      using False Cons by (auto simp: needs_quote_def)
    have "scan FieldStart [] r (csv_field x @ CHR '','' # rest)
          = scan Unquoted [c] r (cs @ CHR '','' # rest)"
      using False c by (simp add: csv_field_def Cons)
    also have "\<dots> = scan Unquoted ([c] @ cs) r (CHR '','' # rest)"
      using cs by (rule scan_unquoted)
    also have "\<dots> = scan FieldStart [] (r @ [x]) rest" by (simp add: Cons)
    finally show ?thesis .
  qed
qed

lemma scan_field_newline:
  "scan FieldStart [] r (csv_field x @ CHR 0x0A # rest) = (r @ [x]) # scan FieldStart [] [] rest"
proof (cases "needs_quote x")
  case True
  then show ?thesis by (simp add: csv_field_def scan_quoted)
next
  case False
  show ?thesis
  proof (cases x)
    case Nil
    then show ?thesis using False by (simp add: csv_field_def)
  next
    case (Cons c cs)
    have c: "c \<noteq> CHR 0x22" "c \<noteq> CHR '',''" "c \<noteq> CHR 0x0A"
      using False Cons by (auto simp: needs_quote_def)
    have cs: "\<forall>c \<in> set cs. c \<noteq> CHR '','' \<and> c \<noteq> CHR 0x0A"
      using False Cons by (auto simp: needs_quote_def)
    have "scan FieldStart [] r (csv_field x @ CHR 0x0A # rest)
          = scan Unquoted [c] r (cs @ CHR 0x0A # rest)"
      using False c by (simp add: csv_field_def Cons)
    also have "\<dots> = scan Unquoted ([c] @ cs) r (CHR 0x0A # rest)"
      using cs by (rule scan_unquoted)
    also have "\<dots> = (r @ [x]) # scan FieldStart [] [] rest" by (simp add: Cons)
    finally show ?thesis .
  qed
qed

lemma scan_row:
  "fs \<noteq> [] \<Longrightarrow>
     scan FieldStart [] r (csv_row fs @ rest) = (r @ fs) # scan FieldStart [] [] rest"
proof (induction fs arbitrary: r)
  case Nil
  then show ?case by simp
next
  case (Cons x fs)
  show ?case
  proof (cases fs)
    case Nil
    then show ?thesis by (simp add: csv_row_def scan_field_newline)
  next
    case (Cons y ys)
    then have "fs \<noteq> []" by simp
    then have "scan FieldStart [] (r @ [x]) (csv_row fs @ rest)
               = ((r @ [x]) @ fs) # scan FieldStart [] [] rest"
      by (rule Cons.IH)
    then show ?thesis by (simp add: csv_row_def Cons scan_field_comma)
  qed
qed

lemma scan_rows:
  "\<forall>fs \<in> set rs. fs \<noteq> [] \<Longrightarrow> scan FieldStart [] [] (concat (map csv_row rs)) = rs"
proof (induction rs)
  case Nil
  show ?case by simp
next
  case (Cons fs rs)
  then have "fs \<noteq> []" and "scan FieldStart [] [] (concat (map csv_row rs)) = rs"
    by simp_all
  then show ?case using scan_row [of fs "[]" "concat (map csv_row rs)"] by simp
qed

lemma parse_to_csv:
  "cols \<noteq> [] \<Longrightarrow> \<forall>fs \<in> set rs. fs \<noteq> [] \<Longrightarrow> parse_csv (to_csv cols rs) = cols # rs"
  using scan_row [of cols "[]" "concat (map csv_row rs)"]
  by (simp add: parse_csv_def to_csv_def scan_rows)

lemma those_row_entries:
  "those (map row_entry (map (\<lambda>e. [str_value (log_email e), log_status e, log_timestamp e,
                                     log_error e]) logs))
     = Some (map (\<lambda>e. e\<lparr>log_email := Str (str_value (log_email e))\<rparr>) logs)"
  by (induction logs) simp_all

lemma text_entries_unchanged:
  "\<forall>e \<in> set logs. log_email e \<noteq> NaN \<Longrightarrow>
     map (\<lambda>e. e\<lparr>log_email := Str (str_value (log_email e))\<rparr>) logs = logs"
proof (induction logs)
  case Nil
  show ?case by simp
next
  case (Cons e logs)
  then obtain a where "log_email e = Str a" by (cases "log_email e") simp_all
  then have "e\<lparr>log_email := Str (str_value (log_email e))\<rparr> = e" by simp
  then show ?case using Cons by simp
qed

text \<open>
  Claim C9. Exporting a log with \<open>export_logs_to_csv\<close> and reading the text back gives the
  entries of the log, in the same order and with the same status, timestamp and error
  text, whatever characters these contain (commas, double quotes and line breaks
  included), and also for the empty log. The email comes back as the text that was
  written: a log whose emails are all present is read back unchanged, and a missing email
  comes back as the empty text.
\<close>

theorem export_logs_round_trip:
  "read_log (export_logs_to_csv logs)
     = Some (map (\<lambda>e. e\<lparr>log_email := Str (str_value (log_email e))\<rparr>) logs)
   \<and> ((\<forall>e \<in> set logs. log_email e \<noteq> NaN) \<longrightarrow>
        read_log (export_logs_to_csv logs) = Some logs)"
proof -
  let ?text = "\<lambda>e. e\<lparr>log_email := Str (str_value (log_email e))\<rparr>"
  have reread: "read_log (export_logs_to_csv logs) = Some (map ?text logs)"
  proof (cases "logs = []")
    case True
    then show ?thesis by (simp add: export_logs_to_csv_def read_log_def parse_csv_def)
  next
    case False
    have "parse_csv (export_logs_to_csv logs)
          = [''email'', ''status'', ''timestamp'', ''error'']
            # map (\<lambda>e. [str_value (log_email e), log_status e, log_timestamp e, log_error e])
                logs"
      using False by (simp add: export_logs_to_csv_def parse_to_csv)
    then show ?thesis by (simp add: read_log_def those_row_entries del: map_map)
  qed
  have same: "read_log (export_logs_to_csv logs) = Some logs"
    if present: "\<forall>e \<in> set logs. log_email e \<noteq> NaN"
  proof -
    have "map ?text logs = logs" using present by (rule text_entries_unchanged)
    with reread show ?thesis by simp
  qed
  from reread same show ?thesis by simp
qed

theorem export_logs_round_trip_witness:
  "read_log (export_logs_to_csv
     [\<lparr>log_email = Str ''a@x.com'', log_status = ''Succ'' @ [CHR 0xE8] @ ''s'',
       log_timestamp = ''12:00:00'', log_error = []\<rparr>,
      \<lparr>log_email = Str ''b@y.org'', log_status = ''Erreur'',
       log_timestamp = ''12:00:01'',
       log_error = ''550 no, '' @ [CHR 0x22] @ ''b'' @ [CHR 0x22, CHR 0x0A] @ ''bye''\<rparr>])
   = Some
     [\<lparr>log_email = Str ''a@x.com'', log_status = ''Succ'' @ [CHR 0xE8] @ ''s'',
       log_timestamp = ''12:00:00'', log_error = []\<rparr>,
      \<lparr>log_email = Str ''b@y.org'', log_status = ''Erreur'',
       log_timestamp = ''12:00:01'',
       log_error = ''550 no, '' @ [CHR 0x22] @ ''b'' @ [CHR 0x22, CHR 0x0A] @ ''bye''\<rparr>]"
proof -
  let ?logs = "[\<lparr>log_email = Str ''a@x.com'', log_status = ''Succ'' @ [CHR 0xE8] @ ''s'',
       log_timestamp = ''12:00:00'', log_error = []\<rparr>,
      \<lparr>log_email = Str ''b@y.org'', log_status = ''Erreur'',
       log_timestamp = ''12:00:01'',
       log_error = ''550 no, '' @ [CHR 0x22] @ ''b'' @ [CHR 0x22, CHR 0x0A] @ ''bye''\<rparr>]"
  have pre: "\<forall>e \<in> set ?logs. log_email e \<noteq> NaN" by simp
  show ?thesis
    by (rule export_logs_round_trip [of ?logs, THEN conjunct2, THEN mp, OF pre])
qed

end
